theory Spec2Isabelle
  imports
    Main
    "HOL-Library.Word"
    "HOL-Library.Char_ord"
    "HOL-Library.List_Lexorder"
    "HOL-Library.Product_Lexorder"
    "HOL-Library.AList"
    "HOL-Library.Multiset"
begin

section \<open>Cross-repository text search: the data model\<close>

text \<open>
  The development follows \<^verbatim>\<open>services/backend/graphqlbackend/textsearch.go\<close>.
  A Go pointer that the code dereferences is an \<open>option\<close> (\<open>None\<close> is the nil
  pointer), a Go \<open>int32\<close> is a 32-bit word, and a Go function returning
  \<open>(value, error)\<close> returns a pair whose second component is \<open>None\<close> for a nil error.
  A nil slice and an empty slice are both the empty list.
\<close>

type_synonym int32 = "32 word"

type_synonym 'a ptr = "'a option"

record patternInfo =
  Pattern :: string
  IsRegExp :: bool
  IsWordMatch :: bool
  IsCaseSensitive :: bool

record lineMatch =
  JPreview :: string
  JLineNumber :: int32
  JOffsetAndLengths :: "int32 list list"

record fileMatch =
  JPath :: string
  JLineMatches :: "lineMatch ptr list"

definition Preview :: "lineMatch \<Rightarrow> string" where
  "Preview lm = JPreview lm"

definition LineNumber :: "lineMatch \<Rightarrow> int32" where
  "LineNumber lm = JLineNumber lm + 1"

definition OffsetAndLengths :: "lineMatch \<Rightarrow> int32 list list" where
  "OffsetAndLengths lm = JOffsetAndLengths lm"

text \<open>
  \<open>uri.URI\<close> embeds Go's \<open>url.URL\<close>; the record has the fields of \<open>url.URL\<close> that a
  parsed \<open>repo?commit#path\<close> string fills. The code reads the field \<open>Path\<close> only.
\<close>

record URI =
  Scheme :: string
  Host :: string
  Path :: string
  RawQuery :: string
  Fragment :: string

record repoMatch =
  uri :: URI
  lineMatches :: "lineMatch ptr list"

record repo =
  ID :: int32

record commit =
  CommitID :: string

datatype ctx_error = Canceled | DeadlineExceeded

text \<open>
  Go errors are values. The constructors name where the code can get one from:
  \<open>ConfigurationError\<close> is \<open>errors.New("a searcher service has not been configured")\<close>,
  \<open>RemoteError\<close> is the \<open>fmt.Errorf("non-200 response: code=%d body=%s")\<close> value,
  \<open>ContextError\<close> is what \<open>ctx.Err()\<close> returns, and the others are errors that a
  collaborator (the HTTP client, the JSON decoder, the repository store, the revision
  resolver, the URI parser) hands back and the code passes on unchanged.
\<close>

datatype error =
    ConfigurationError
  | RequestError string
  | NetworkError string
  | ReadError string
  | RemoteError int string
  | ProtocolError string
  | StoreError string
  | ResolveError string
  | ParseError string
  | ContextError ctx_error

type_synonym Values = "(string \<times> string list) list"

record request =
  req_URL :: string
  req_RawQuery :: Values

record response =
  StatusCode :: int
  Body :: string

text \<open>
  The calls that leave the process, in the order they are made: the log of effects that
  the functions below return next to their result.
\<close>

datatype call =
    SearchStarted string
  | CallGetByURI string
  | CallResolveRev int32
  | CallDo request

text \<open>
  Everything outside the file: the environment variable read into \<open>searcherURL\<close>, the
  repository store and revision resolver, Go's HTTP client and JSON decoder, and the URI
  parser. Functions of the repository that return a pointer and an error are pairs; the
  standard library's are sums, by their documented contract.
\<close>

record collaborators =
  searcherURL :: string
  GetByURI :: "string \<Rightarrow> repo ptr \<times> error option"
  ResolveRev :: "int32 \<Rightarrow> commit ptr \<times> error option"
  NewRequest :: "string \<Rightarrow> error option"
  Do :: "request \<Rightarrow> error + response"
  ReadAll :: "string \<Rightarrow> error + string"
  Decode :: "string \<Rightarrow> fileMatch ptr list \<times> error option"
  uri_Parse :: "string \<Rightarrow> URI ptr \<times> error option"

text \<open>A Go call either returns or panics.\<close>

datatype 'a go = Panic | Return 'a

section \<open>The single-repository search client\<close>

definition Values_Set :: "string \<Rightarrow> string \<Rightarrow> Values \<Rightarrow> Values" where
  "Values_Set k v q = AList.update k [v] q"

definition textSearch ::
  "collaborators \<Rightarrow> string \<Rightarrow> string \<Rightarrow> patternInfo \<Rightarrow>
    (fileMatch ptr list \<times> error option) \<times> call list" where
  "textSearch w repo commit p =
    (if searcherURL w = [] then (([], Some ConfigurationError), [])
     else
       let q0 = [(''Repo'', [repo]), (''Commit'', [commit]), (''Pattern'', [Pattern p])];
           q1 = (if IsRegExp p then Values_Set ''IsRegExp'' ''true'' q0 else q0);
           q2 = (if IsWordMatch p then Values_Set ''IsWordMatch'' ''true'' q1 else q1);
           q3 = (if IsCaseSensitive p then Values_Set ''IsCaseSensitive'' ''true'' q2 else q2)
       in case NewRequest w (searcherURL w) of
            Some err \<Rightarrow> (([], Some err), [])
          | None \<Rightarrow>
              let req = \<lparr>req_URL = searcherURL w, req_RawQuery = q3\<rparr>
              in case Do w req of
                   Inl err \<Rightarrow> (([], Some err), [CallDo req])
                 | Inr resp \<Rightarrow>
                     if StatusCode resp \<noteq> 200 then
                       (case ReadAll w (Body resp) of
                          Inl err \<Rightarrow> (([], Some err), [CallDo req])
                        | Inr body \<Rightarrow>
                            (([], Some (RemoteError (StatusCode resp) body)), [CallDo req]))
                     else (Decode w (Body resp), [CallDo req]))"

text \<open>
  The method \<open>TextSearch\<close> of \<open>commitResolver\<close>, lines 73 to 75. The declaration of
  the resolver is in another file of the package; the method reads \<open>r.repo.URI\<close> and
  \<open>r.commit.CommitID\<close>, which the record holds.
\<close>

record commitResolver =
  repo_URI :: string
  commit_CommitID :: string

definition TextSearch ::
  "collaborators \<Rightarrow> commitResolver \<Rightarrow> patternInfo \<Rightarrow>
    (fileMatch ptr list \<times> error option) \<times> call list" where
  "TextSearch w r info = textSearch w (repo_URI r) (commit_CommitID r) info"

section \<open>Searching one repository\<close>

text \<open>
  The loop of \<open>searchRepo\<close> over the file matches: it stops at the first URI that does
  not parse, and dereferences both the file match and the parsed URI.
\<close>

fun repoMatches_loop ::
  "collaborators \<Rightarrow> string \<Rightarrow> string \<Rightarrow> fileMatch ptr list \<Rightarrow>
    (repoMatch list \<times> error option) go" where
  "repoMatches_loop w repoName commitID [] = Return ([], None)"
| "repoMatches_loop w repoName commitID (None # fms) = Panic"
| "repoMatches_loop w repoName commitID (Some fm # fms) =
    (case uri_Parse w (repoName @ ''?'' @ commitID @ ''#'' @ JPath fm) of
       (_, Some err) \<Rightarrow> Return ([], Some err)
     | (None, None) \<Rightarrow> Panic
     | (Some u, None) \<Rightarrow>
         (case repoMatches_loop w repoName commitID fms of
            Panic \<Rightarrow> Panic
          | Return (_, Some err) \<Rightarrow> Return ([], Some err)
          | Return (rms, None) \<Rightarrow>
              Return (\<lparr>uri = u, lineMatches = JLineMatches fm\<rparr> # rms, None)))"

text \<open>
  \<open>searchRepo\<close> checks the error of \<open>GetByURI\<close>, but not the one of \<open>ResolveRev\<close>: the
  variable is overwritten by the next assignment, and \<open>commit.CommitID\<close> is evaluated
  (a nil pointer panics there) before \<open>textSearch\<close> is entered.
\<close>

definition searchRepo ::
  "collaborators \<Rightarrow> string \<Rightarrow> patternInfo \<Rightarrow>
    (repoMatch list \<times> error option) go \<times> call list" where
  "searchRepo w repoName info =
    (case GetByURI w repoName of
       (_, Some err) \<Rightarrow> (Return ([], Some err), [CallGetByURI repoName])
     | (None, None) \<Rightarrow> (Panic, [CallGetByURI repoName])
     | (Some rp, None) \<Rightarrow>
         (case fst (ResolveRev w (ID rp)) of
            None \<Rightarrow> (Panic, [CallGetByURI repoName, CallResolveRev (ID rp)])
          | Some c \<Rightarrow>
              (case textSearch w repoName (CommitID c) info of
                 ((_, Some err), cs) \<Rightarrow>
                   (Return ([], Some err),
                    [CallGetByURI repoName, CallResolveRev (ID rp)] @ cs)
               | ((fileMatches, None), cs) \<Rightarrow>
                   (repoMatches_loop w repoName (CommitID c) fileMatches,
                    [CallGetByURI repoName, CallResolveRev (ID rp)] @ cs))))"

section \<open>The aggregator\<close>

text \<open>
  \<open>strings.Compare\<close> is the bytewise lexicographic comparison of Go's standard library.
\<close>

definition strings_Compare :: "string \<Rightarrow> string \<Rightarrow> int" where
  "strings_Compare a b = (if a = b then 0 else if a < b then - 1 else 1)"

text \<open>The comparison closure that \<open>accumulate\<close> hands to \<open>sort.Slice\<close>.\<close>

definition less_repoMatch :: "repoMatch \<Rightarrow> repoMatch \<Rightarrow> bool" where
  "less_repoMatch x y =
    (let a = length (lineMatches x); b = length (lineMatches y)
     in if a \<noteq> b then a < b
        else strings_Compare (Path (uri x)) (Path (uri y)) < 0)"

text \<open>
  The closure compares the pair of the match count and the path, the count first.
\<close>

definition sort_key_of :: "repoMatch \<Rightarrow> nat \<times> string" where
  "sort_key_of x = (length (lineMatches x), Path (uri x))"

text \<open>
  \<open>sort.Slice\<close> is Go's standard library: it leaves the slice a permutation of itself,
  sorted by the given \<open>less\<close>, and is documented not to be stable. The model is the
  library's insertion sort, which is literally what it runs on a slice of at most six
  elements: each element in turn is swapped towards the front while it is less than its
  left neighbour. \<open>insert_back\<close> works on the sorted prefix read from its right end.
  On a longer slice the library's result can differ from the model's only in the order
  of elements that \<open>less\<close> does not separate: the model keeps them in the order they
  came in, the library does not promise to. What is proved below for every input uses
  only that the result is a sorted permutation; the order of such elements is read off
  the model on slices of two or three elements only.
\<close>

fun insert_back :: "('a \<Rightarrow> 'a \<Rightarrow> bool) \<Rightarrow> 'a \<Rightarrow> 'a list \<Rightarrow> 'a list" where
  "insert_back lt x [] = [x]"
| "insert_back lt x (y # ys) =
    (if lt x y then y # insert_back lt x ys else x # y # ys)"

definition sort_Slice :: "('a \<Rightarrow> 'a \<Rightarrow> bool) \<Rightarrow> 'a list \<Rightarrow> 'a list" where
  "sort_Slice lt xs = rev (foldl (\<lambda>sorted x. insert_back lt x sorted) [] xs)"

text \<open>
  \<open>accumulate\<close> reads the channel \<open>responses\<close> until it is closed, appending each batch,
  sorts, and sends the result. Its argument is the sequence of batches in the order they
  arrive.
\<close>

definition accumulate :: "repoMatch list list \<Rightarrow> repoMatch list" where
  "accumulate responses = sort_Slice less_repoMatch (foldl (@) [] responses)"

section \<open>The orchestrator: goroutines over channels\<close>

text \<open>
  \<open>SearchRepos\<close> starts the goroutine \<open>accumulate\<close> and ten workers, feeds the
  repository names into the unbuffered channel \<open>repositories\<close>, closes it, waits for the
  workers, closes \<open>responses\<close>, and returns either \<open>ctx.Err()\<close> or what \<open>accumulate\<close>
  sends on \<open>result\<close>. The model is a transition system: a state holds, for every
  goroutine, the statement it stands at, and a step runs one goroutine up to its next
  access to shared state. A send on an unbuffered channel and the matching receive are one
  step, taken when both sides stand at it. The interleaving is a list of events.
\<close>

datatype worker_pc =
    W_range
  | W_check string
  | W_search string
  | W_send "repoMatch list"
  | W_exit

datatype main_pc =
    M_feed "string list"
  | M_wait
  | M_close
  | M_err
  | M_result
  | M_returned "repoMatch list \<times> error option"

datatype acc_pc =
    A_recv "repoMatch list"
  | A_send "repoMatch list"
  | A_exit

text \<open>
  A worker stands at its receive from \<open>repositories\<close> (\<open>W_range\<close>), at its receive
  from \<open>ctx.Done()\<close> with the name it has taken (\<open>W_check\<close>), before its call of
  \<open>searchRepo\<close> (\<open>W_search\<close>), at the send of its batch (\<open>W_send\<close>), or it has
  returned (\<open>W_exit\<close>). The caller stands in its loop with the names that are left
  (\<open>M_feed\<close>), at \<open>wg.Wait()\<close>, at \<open>close(responses)\<close>, at \<open>ctx.Err()\<close>, at its
  receive from \<open>result\<close>, or it has returned a pair of a result and an error.
  \<open>accumulate\<close> stands in its loop with what it has appended so far, at its send of the
  sorted sequence, or it has returned. The state also holds the error of the derived
  context (\<open>None\<close> while it is open), which channels are closed, the log of the calls
  made to the collaborators, and whether a goroutine has panicked.
\<close>

record state =
  ctx_err :: "ctx_error option"
  repositories_closed :: bool
  responses_closed :: bool
  main :: main_pc
  workers :: "worker_pc list"
  acc :: acc_pc
  calls :: "call list"
  crashed :: bool

text \<open>
  An event is a step of the calling goroutine, of worker \<open>i\<close>, of \<open>accumulate\<close>, or the
  end of the context the caller passed in (cancelled, or past its deadline), which ends
  the derived context unless that is over already.
\<close>

datatype event = Main | Worker nat | Accumulate | ParentDone ctx_error

definition nworkers :: nat where
  "nworkers = 10"

definition init :: "string list \<Rightarrow> state" where
  "init repos =
    \<lparr>ctx_err = None, repositories_closed = False, responses_closed = False,
     main = M_feed repos, workers = replicate nworkers W_range, acc = A_recv [],
     calls = [], crashed = False\<rparr>"

text \<open>\<open>cancel()\<close>: the first end of a context decides its error.\<close>

definition cancel :: "state \<Rightarrow> state" where
  "cancel s = (case ctx_err s of None \<Rightarrow> s\<lparr>ctx_err := Some Canceled\<rparr> | Some _ \<Rightarrow> s)"

text \<open>
  \<open>_, ok := <-ctx.Done()\<close>. Nothing is ever sent on the channel \<open>Done\<close>; it is closed
  when the context ends. The receive blocks (\<open>None\<close>) while the channel is open, and on
  the closed channel it yields the zero value with \<open>ok = false\<close>.
\<close>

definition recv_Done :: "ctx_error option \<Rightarrow> bool option" where
  "recv_Done c = (case c of None \<Rightarrow> None | Some _ \<Rightarrow> Some False)"

definition set_worker :: "nat \<Rightarrow> worker_pc \<Rightarrow> state \<Rightarrow> state" where
  "set_worker i pc s = s\<lparr>workers := (workers s)[i := pc]\<rparr>"

text \<open>
  One worker, lines 197 to 207: receive a name from \<open>repositories\<close> (or leave the loop
  when it is closed and drained), receive from \<open>ctx.Done()\<close> and return if \<open>ok\<close>, call
  \<open>searchRepo\<close>, on an error call \<open>cancel()\<close> and return, else send the batch on
  \<open>responses\<close>. A panic of \<open>searchRepo\<close> in a goroutine ends the process; so does a send
  on a closed channel.
\<close>

definition worker_step ::
  "collaborators \<Rightarrow> patternInfo \<Rightarrow> nat \<Rightarrow> state \<Rightarrow> state option" where
  "worker_step w info i s =
    (if \<not> i < length (workers s) then None
     else case workers s ! i of
       W_range \<Rightarrow>
         (case main s of
            M_feed (r # rs) \<Rightarrow> Some (set_worker i (W_check r) (s\<lparr>main := M_feed rs\<rparr>))
          | _ \<Rightarrow> if repositories_closed s then Some (set_worker i W_exit s) else None)
     | W_check r \<Rightarrow>
         (case recv_Done (ctx_err s) of
            None \<Rightarrow> None
          | Some ok \<Rightarrow> Some (set_worker i (if ok then W_exit else W_search r) s))
     | W_search r \<Rightarrow>
         (case searchRepo w r info of
            (Panic, cs) \<Rightarrow> Some (s\<lparr>calls := calls s @ SearchStarted r # cs, crashed := True\<rparr>)
          | (Return (rm, Some err), cs) \<Rightarrow>
              Some (set_worker i W_exit (cancel (s\<lparr>calls := calls s @ SearchStarted r # cs\<rparr>)))
          | (Return (rm, None), cs) \<Rightarrow>
              Some (set_worker i (W_send rm) (s\<lparr>calls := calls s @ SearchStarted r # cs\<rparr>)))
     | W_send rm \<Rightarrow>
         (if responses_closed s then Some (s\<lparr>crashed := True\<rparr>)
          else case acc s of
            A_recv flattened \<Rightarrow> Some (set_worker i W_range (s\<lparr>acc := A_recv (flattened @ rm)\<rparr>))
          | _ \<Rightarrow> None)
     | W_exit \<Rightarrow> None)"

text \<open>
  The calling goroutine, lines 210 to 221. At \<open>M_feed (r # rs)\<close> it is blocked in
  \<open>repositories <- r\<close> until a worker receives; \<open>wg.Wait()\<close> passes when every worker has
  returned.
\<close>

definition main_step :: "state \<Rightarrow> state option" where
  "main_step s =
    (case main s of
       M_feed [] \<Rightarrow> Some (s\<lparr>repositories_closed := True, main := M_wait\<rparr>)
     | M_feed (r # rs) \<Rightarrow> None
     | M_wait \<Rightarrow> if list_all (\<lambda>pc. pc = W_exit) (workers s) then Some (s\<lparr>main := M_close\<rparr>) else None
     | M_close \<Rightarrow> Some (s\<lparr>responses_closed := True, main := M_err\<rparr>)
     | M_err \<Rightarrow>
         (case ctx_err s of
            Some e \<Rightarrow> Some ((cancel s)\<lparr>main := M_returned ([], Some (ContextError e))\<rparr>)
          | None \<Rightarrow> Some ((cancel s)\<lparr>main := M_result\<rparr>))
     | M_result \<Rightarrow>
         (case acc s of
            A_send flattened \<Rightarrow> Some (s\<lparr>main := M_returned (flattened, None), acc := A_exit\<rparr>)
          | _ \<Rightarrow> None)
     | M_returned _ \<Rightarrow> None)"

text \<open>
  The goroutine \<open>accumulate\<close>: the receives from \<open>responses\<close> are the workers' send
  steps; its own step sorts once the channel is closed, and it then stands at
  \<open>result <- flattened\<close> until the caller receives.
\<close>

definition acc_step :: "state \<Rightarrow> state option" where
  "acc_step s =
    (case acc s of
       A_recv flattened \<Rightarrow>
         if responses_closed s then Some (s\<lparr>acc := A_send (sort_Slice less_repoMatch flattened)\<rparr>)
         else None
     | _ \<Rightarrow> None)"

definition step :: "collaborators \<Rightarrow> patternInfo \<Rightarrow> event \<Rightarrow> state \<Rightarrow> state option" where
  "step w info e s =
    (if crashed s then None
     else case e of
       Main \<Rightarrow> main_step s
     | Worker i \<Rightarrow> worker_step w info i s
     | Accumulate \<Rightarrow> acc_step s
     | ParentDone c \<Rightarrow> (case ctx_err s of None \<Rightarrow> Some (s\<lparr>ctx_err := Some c\<rparr>) | Some _ \<Rightarrow> None))"

fun run :: "collaborators \<Rightarrow> patternInfo \<Rightarrow> event list \<Rightarrow> state \<Rightarrow> state option" where
  "run w info [] s = Some s"
| "run w info (e # es) s =
    (case step w info e s of None \<Rightarrow> None | Some s' \<Rightarrow> run w info es s')"

record repoSearchArgs =
  Info :: patternInfo
  Repos :: "string list"

text \<open>
  What a call of \<open>SearchRepos\<close> has returned after the interleaving \<open>sched\<close>: \<open>None\<close> when
  the interleaving is not one of the program, or the call has not returned by its end.
\<close>

definition SearchRepos ::
  "collaborators \<Rightarrow> repoSearchArgs \<Rightarrow> event list \<Rightarrow> (repoMatch list \<times> error option) option" where
  "SearchRepos w args sched =
    (case run w (Info args) sched (init (Repos args)) of
       None \<Rightarrow> None
     | Some s \<Rightarrow> (case main s of M_returned out \<Rightarrow> Some out | _ \<Rightarrow> None))"

text \<open>The goroutines that can take a step in a state; none of them can in a deadlock.\<close>

definition goroutines :: "event list" where
  "goroutines = Main # Accumulate # map Worker [0..<nworkers]"

definition enabled :: "collaborators \<Rightarrow> patternInfo \<Rightarrow> state \<Rightarrow> event list" where
  "enabled w info s = filter (\<lambda>e. step w info e s \<noteq> None) goroutines"

section \<open>Invariants of the reachable states\<close>

text \<open>
  Where the calling goroutine stands relative to \<open>wg.Wait()\<close> and to
  \<open>close(responses)\<close>, and whether a worker is past its receive from \<open>ctx.Done()\<close>.
\<close>

definition after_wait :: "main_pc \<Rightarrow> bool" where
  "after_wait m = (case m of M_feed _ \<Rightarrow> False | M_wait \<Rightarrow> False | _ \<Rightarrow> True)"

definition after_close :: "main_pc \<Rightarrow> bool" where
  "after_close m = (case m of M_feed _ \<Rightarrow> False | M_wait \<Rightarrow> False | M_close \<Rightarrow> False | _ \<Rightarrow> True)"

definition feeding :: "main_pc \<Rightarrow> bool" where
  "feeding m = (case m of M_feed _ \<Rightarrow> True | _ \<Rightarrow> False)"

definition searching :: "worker_pc \<Rightarrow> bool" where
  "searching pc = (case pc of W_search _ \<Rightarrow> True | W_send _ \<Rightarrow> True | _ \<Rightarrow> False)"

definition sending :: "worker_pc \<Rightarrow> bool" where
  "sending pc = (case pc of W_send _ \<Rightarrow> True | _ \<Rightarrow> False)"

definition ctx_inv :: "state \<Rightarrow> bool" where
  "ctx_inv s \<longleftrightarrow>
    (ctx_err s = None \<longrightarrow> calls s = [] \<and> (\<forall>pc \<in> set (workers s). \<not> searching pc))"

definition calls_inv :: "state \<Rightarrow> bool" where
  "calls_inv s \<longleftrightarrow>
    (calls s = [] \<longrightarrow> \<not> crashed s \<and> (\<forall>pc \<in> set (workers s). \<not> sending pc) \<and>
       (acc s = A_recv [] \<or> acc s = A_send [] \<or> acc s = A_exit))"

definition wait_inv :: "state \<Rightarrow> bool" where
  "wait_inv s \<longleftrightarrow> (after_wait (main s) \<longrightarrow> (\<forall>pc \<in> set (workers s). pc = W_exit))"

definition chan_inv :: "state \<Rightarrow> bool" where
  "chan_inv s \<longleftrightarrow>
    length (workers s) = nworkers \<and>
    (responses_closed s \<longleftrightarrow> after_close (main s)) \<and>
    (repositories_closed s \<longleftrightarrow> \<not> feeding (main s)) \<and>
    (\<not> responses_closed s \<longrightarrow> (\<exists>fl. acc s = A_recv fl)) \<and>
    (acc s = A_exit \<longrightarrow> (\<exists>fl. main s = M_returned (fl, None)))"

definition ret_inv :: "state \<Rightarrow> bool" where
  "ret_inv s \<longleftrightarrow>
    (main s = M_result \<longrightarrow> calls s = []) \<and>
    (\<forall>fl. main s = M_returned (fl, None) \<longrightarrow> calls s = [] \<and> fl = []) \<and>
    (\<forall>fl e. main s = M_returned (fl, Some e) \<longrightarrow>
       fl = [] \<and> (\<exists>c. ctx_err s = Some c \<and> e = ContextError c))"

definition wf_state :: "state \<Rightarrow> bool" where
  "wf_state s \<longleftrightarrow> ctx_inv s \<and> calls_inv s \<and> wait_inv s \<and> chan_inv s \<and> ret_inv s"

text \<open>A schedule in which the context of the caller does not end.\<close>

definition parent_alive :: "event list \<Rightarrow> bool" where
  "parent_alive sched = list_all (\<lambda>e. case e of ParentDone _ \<Rightarrow> False | _ \<Rightarrow> True) sched"

text \<open>
  With an open context, every worker that has taken a name stands at its receive from
  \<open>ctx.Done()\<close>, and the caller cannot get past \<open>wg.Wait()\<close>.
\<close>

definition at_check :: "worker_pc \<Rightarrow> bool" where
  "at_check pc = (case pc of W_check _ \<Rightarrow> True | _ \<Rightarrow> False)"

definition blocked_inv :: "string list \<Rightarrow> state \<Rightarrow> bool" where
  "blocked_inv repos s \<longleftrightarrow>
    ctx_err s = None \<and> (feeding (main s) \<or> main s = M_wait) \<and>
    (main s \<noteq> M_feed repos \<longrightarrow> (\<exists>pc \<in> set (workers s). at_check pc))"

text \<open>With no names to feed, no worker ever takes one.\<close>

definition idle_inv :: "state \<Rightarrow> bool" where
  "idle_inv s \<longleftrightarrow>
    (\<forall>pc \<in> set (workers s). pc = W_range \<or> pc = W_exit) \<and>
    (\<forall>r rs. main s \<noteq> M_feed (r # rs)) \<and> \<not> crashed s \<and>
    (ctx_err s = None \<or> main s = M_result \<or> main s = M_returned ([], None)) \<and>
    (\<forall>out. main s = M_returned out \<longrightarrow> out = ([], None))"

text \<open>
  A bound on the steps that are left: every step of a goroutine, and the end of the
  caller's context, lowers it.
\<close>

fun main_rank :: "main_pc \<Rightarrow> nat" where
  "main_rank (M_feed rs) = 5 * length rs + 5"
| "main_rank M_wait = 4"
| "main_rank M_close = 3"
| "main_rank M_err = 2"
| "main_rank M_result = 1"
| "main_rank (M_returned _) = 0"

fun worker_rank :: "worker_pc \<Rightarrow> nat" where
  "worker_rank W_range = 1"
| "worker_rank (W_check _) = 4"
| "worker_rank (W_search _) = 3"
| "worker_rank (W_send _) = 2"
| "worker_rank W_exit = 0"

fun acc_rank :: "acc_pc \<Rightarrow> nat" where
  "acc_rank (A_recv _) = 2"
| "acc_rank (A_send _) = 1"
| "acc_rank A_exit = 0"

definition budget :: "state \<Rightarrow> nat" where
  "budget s =
    main_rank (main s) + sum_list (map worker_rank (workers s)) + acc_rank (acc s) +
    (if ctx_err s = None then 1 else 0) + (if crashed s then 0 else 1)"

text \<open>
  A search that returns an error; and, while the caller is feeding names of which every
  search fails, the names not yet taken and the workers that have taken one add up to
  the names given.
\<close>

definition search_fails :: "collaborators \<Rightarrow> patternInfo \<Rightarrow> string \<Rightarrow> bool" where
  "search_fails w info r =
    (case fst (searchRepo w r info) of Return (_, Some _) \<Rightarrow> True | _ \<Rightarrow> False)"

definition busy :: "worker_pc \<Rightarrow> bool" where
  "busy pc = (pc \<noteq> W_range)"

definition holds_repo :: "string list \<Rightarrow> worker_pc \<Rightarrow> bool" where
  "holds_repo repos pc =
    (case pc of W_check r \<Rightarrow> r \<in> set repos | W_search r \<Rightarrow> r \<in> set repos
     | W_send _ \<Rightarrow> False | _ \<Rightarrow> True)"

definition feed_inv :: "string list \<Rightarrow> state \<Rightarrow> bool" where
  "feed_inv repos s \<longleftrightarrow>
    (\<exists>rs. main s = M_feed rs \<and> set rs \<subseteq> set repos \<and>
       length rs + length (filter busy (workers s)) = length repos) \<and>
    (\<forall>pc \<in> set (workers s). holds_repo repos pc)"

section \<open>Example inputs\<close>

text \<open>
  A pattern, a line match, and collaborators that answer every repository with one file
  with one matching line, except that the HTTP request for a repository listed in
  \<open>down\<close> fails in the transport. The example parser splits \<open>repo?commit#path\<close> at the
  first question mark and the first hash.
\<close>

definition example_match :: lineMatch where
  "example_match = \<lparr>JPreview = ''func main() {'', JLineNumber = 0, JOffsetAndLengths = [[5, 4]]\<rparr>"

definition example_pattern :: patternInfo where
  "example_pattern =
    \<lparr>Pattern = ''main'', IsRegExp = False, IsWordMatch = True, IsCaseSensitive = False\<rparr>"

definition example_parse :: "string \<Rightarrow> URI ptr \<times> error option" where
  "example_parse u =
    (Some \<lparr>Scheme = [], Host = [],
       Path = takeWhile (\<lambda>c. c \<noteq> CHR ''?'') u,
       RawQuery = takeWhile (\<lambda>c. c \<noteq> CHR ''#'') (drop 1 (dropWhile (\<lambda>c. c \<noteq> CHR ''?'') u)),
       Fragment = drop 1 (dropWhile (\<lambda>c. c \<noteq> CHR ''#'') u)\<rparr>, None)"

definition example_backend :: "string list \<Rightarrow> collaborators" where
  "example_backend down =
    \<lparr>searcherURL = ''http://searcher:3181'',
     GetByURI = (\<lambda>name. (Some \<lparr>ID = 1\<rparr>, None)),
     ResolveRev = (\<lambda>i. (Some \<lparr>CommitID = ''c0''\<rparr>, None)),
     NewRequest = (\<lambda>u. None),
     Do = (\<lambda>req. if list_ex (\<lambda>r. map_of (req_RawQuery req) ''Repo'' = Some [r]) down
                then Inl (NetworkError ''connection refused'')
                else Inr \<lparr>StatusCode = 200, Body = ''[..]''\<rparr>),
     ReadAll = Inr,
     Decode = (\<lambda>body. ([Some \<lparr>JPath = ''README.md'', JLineMatches = [Some example_match]\<rparr>], None)),
     uri_Parse = example_parse\<rparr>"

definition example_args :: "string list \<Rightarrow> repoSearchArgs" where
  "example_args repos = \<lparr>Info = example_pattern, Repos = repos\<rparr>"

text \<open>Two files of one repository, each with one matching line.\<close>

definition match_y :: repoMatch where
  "match_y =
    \<lparr>uri = \<lparr>Scheme = [], Host = [], Path = ''github.com/a/a'', RawQuery = ''c0'',
             Fragment = ''y.go''\<rparr>,
     lineMatches = [Some example_match]\<rparr>"

definition match_x :: repoMatch where
  "match_x =
    \<lparr>uri = \<lparr>Scheme = [], Host = [], Path = ''github.com/a/a'', RawQuery = ''c0'',
             Fragment = ''x.go''\<rparr>,
     lineMatches = [Some example_match]\<rparr>"

text \<open>A file of another repository, with no matching line.\<close>

definition match_z :: repoMatch where
  "match_z =
    \<lparr>uri = \<lparr>Scheme = [], Host = [], Path = ''github.com/b/b'', RawQuery = ''c0'',
             Fragment = ''z.go''\<rparr>,
     lineMatches = []\<rparr>"

text \<open>
  One file of one repository at two snapshots, with one matching line each: two entries
  that differ, and agree in match count, in \<open>Path\<close> and in file path.
\<close>

definition match_c0 :: repoMatch where
  "match_c0 =
    \<lparr>uri = \<lparr>Scheme = [], Host = [], Path = ''github.com/a/a'', RawQuery = ''c0'',
             Fragment = ''README.md''\<rparr>,
     lineMatches = [Some example_match]\<rparr>"

definition match_c1 :: repoMatch where
  "match_c1 =
    \<lparr>uri = \<lparr>Scheme = [], Host = [], Path = ''github.com/a/a'', RawQuery = ''c1'',
             Fragment = ''README.md''\<rparr>,
     lineMatches = [Some example_match]\<rparr>"

text \<open>The same file in the other repository, as the example collaborators report it.\<close>

definition match_readme_b :: repoMatch where
  "match_readme_b =
    \<lparr>uri = \<lparr>Scheme = [], Host = [], Path = ''github.com/b/b'', RawQuery = ''c0'',
             Fragment = ''README.md''\<rparr>,
     lineMatches = [Some example_match]\<rparr>"

text \<open>The example collaborators with no backend endpoint configured.\<close>

definition unconfigured_backend :: collaborators where
  "unconfigured_backend = (example_backend [])\<lparr>searcherURL := []\<rparr>"

definition example_resolver :: commitResolver where
  "example_resolver = \<lparr>repo_URI = ''github.com/a/a'', commit_CommitID = ''c0''\<rparr>"

definition repo_a :: string where
  "repo_a = ''github.com/a/a''"

definition repo_b :: string where
  "repo_b = ''github.com/b/b''"

definition eleven :: "string list" where
  "eleven = [''a'', ''b'', ''c'', ''d'', ''e'', ''f'', ''g'', ''h'', ''i'', ''j'', ''k'']"

text \<open>
  Interleavings. With no names: the caller closes \<open>repositories\<close>, each worker leaves its
  loop, the caller passes \<open>wg.Wait()\<close>, closes \<open>responses\<close>, reads \<open>ctx.Err()\<close>,
  \<open>accumulate\<close> sorts, and the caller receives the result; and the same after the
  caller's context was cancelled.
\<close>

definition run_empty :: "event list" where
  "run_empty = [Main] @ map Worker [0..<10] @ [Main, Main, Main, Accumulate, Main]"

definition run_empty_cancelled :: "event list" where
  "run_empty_cancelled = [ParentDone Canceled, Main] @ map Worker [0..<10] @ [Main, Main, Main]"

text \<open>
  One name, the context of the caller past its deadline: worker 0 takes the name, passes
  the receive from \<open>ctx.Done()\<close>, searches; the caller closes, the other workers leave,
  the caller waits, closes and reads \<open>ctx.Err()\<close>.
\<close>

definition run_one_failure :: "event list" where
  "run_one_failure =
    [ParentDone DeadlineExceeded, Worker 0, Worker 0, Worker 0, Main] @ map Worker [1..<10] @
    [Main, Main, Main]"

text \<open>
  One name, the context open: worker 0 takes the name, the caller closes \<open>repositories\<close>
  and the other workers leave.
\<close>

definition run_blocked :: "event list" where
  "run_blocked = [Worker 0, Main] @ map Worker [1..<10]"

text \<open>
  Eleven names, the context cancelled: each of the ten workers takes a name, passes the
  receive from \<open>ctx.Done()\<close> and searches.
\<close>

definition run_eleven :: "event list" where
  "run_eleven = ParentDone Canceled # concat (map (\<lambda>i. [Worker i, Worker i, Worker i]) [0..<10])"

text \<open>
  Two names, the context cancelled: worker 0 takes the first, searches and returns;
  worker 1 takes the second.
\<close>

definition run_second_check :: "event list" where
  "run_second_check = [ParentDone Canceled, Worker 0, Worker 0, Worker 0, Worker 1]"

section \<open>The line number of a match\<close>

lemma sint_succ:
  fixes x :: int32
  assumes "sint x < 2 ^ 31 - 1"
  shows "sint (x + 1) = sint x + 1"
proof -
  have "- (2 ^ 31) \<le> sint x" using sint_ge [of x] by simp
  with assms show ?thesis
    by (simp add: sint_word_ariths signed_take_bit_int_eq_self)
qed

text \<open>
  C8, as stated: the line number that \<open>LineNumber\<close> exposes is the backend's 0-based
  number plus one. At the largest \<open>int32\<close> the addition wraps around: the backend's
  2147483647 is exposed as -2147483648, not as 2147483648.
\<close>

theorem LineNumber_wraps:
  "sint (LineNumber \<lparr>JPreview = [], JLineNumber = 2147483647, JOffsetAndLengths = []\<rparr>)
     = - 2147483648 \<and>
   sint (JLineNumber \<lparr>JPreview = [], JLineNumber = 2147483647, JOffsetAndLengths = []\<rparr>) + 1
     = 2147483648"
  by (simp add: LineNumber_def)

text \<open>
  C8, amended: for every line match whose backend line number is below the largest
  \<open>int32\<close>, the exposed line number is the backend's number plus one, as integers. The
  stored field stays 0-based; the accessor adds the one, on every read.
\<close>

theorem LineNumber_one_based:
  "sint (JLineNumber lm) < 2 ^ 31 - 1 \<Longrightarrow> sint (LineNumber lm) = sint (JLineNumber lm) + 1"
  by (simp add: LineNumber_def sint_succ)

theorem LineNumber_one_based_witness:
  "sint (JLineNumber example_match) < 2 ^ 31 - 1 \<and> sint (LineNumber example_match) = 1"
  using LineNumber_one_based [of example_match] by (simp add: example_match_def)

section \<open>A revision that does not resolve\<close>

text \<open>
  C10 says that \<open>searchRepo\<close> returns an error when \<open>ResolveRev\<close> fails. The code
  drops that error: when \<open>ResolveRev\<close> hands back a nil commit with its error, the
  evaluation of \<open>commit.CommitID\<close> panics, after the two lookups and before any request
  to the backend.
\<close>

theorem searchRepo_ResolveRev_fails:
  "GetByURI w repoName = (Some rp, None) \<Longrightarrow> ResolveRev w (ID rp) = (None, Some err) \<Longrightarrow>
    searchRepo w repoName info = (Panic, [CallGetByURI repoName, CallResolveRev (ID rp)])"
  by (simp add: searchRepo_def)

theorem searchRepo_ResolveRev_fails_witness:
  "GetByURI ((example_backend [])\<lparr>ResolveRev := \<lambda>i. (None, Some (ResolveError ''unknown revision''))\<rparr>)
     ''github.com/a/a'' = (Some \<lparr>ID = 1\<rparr>, None) \<and>
   searchRepo ((example_backend [])\<lparr>ResolveRev := \<lambda>i. (None, Some (ResolveError ''unknown revision''))\<rparr>)
     ''github.com/a/a'' example_pattern
     = (Panic, [CallGetByURI ''github.com/a/a'', CallResolveRev 1])"
  using searchRepo_ResolveRev_fails
    [of "(example_backend [])\<lparr>ResolveRev := \<lambda>i. (None, Some (ResolveError ''unknown revision''))\<rparr>"
      "''github.com/a/a''" "\<lparr>ID = 1\<rparr>" "ResolveError ''unknown revision''" example_pattern]
  by (simp add: example_backend_def)

section \<open>The aggregator sorts\<close>

lemma foldl_append_concat: "foldl (@) a xs = a @ concat xs"
  by (induction xs arbitrary: a) simp_all

lemma accumulate_concat: "accumulate bs = sort_Slice less_repoMatch (concat bs)"
  by (simp add: accumulate_def foldl_append_concat)

lemma less_repoMatch_key: "less_repoMatch x y = (sort_key_of x < sort_key_of y)"
  by (auto simp: less_repoMatch_def sort_key_of_def strings_Compare_def Let_def)




lemma set_insert_back: "set (insert_back lt x ys) = insert x (set ys)"
  by (induction ys) auto

lemma sorted_insert_back:
  fixes k :: "'a \<Rightarrow> 'b::linorder"
  shows "sorted_wrt (\<lambda>a b. k b \<le> k a) ys \<Longrightarrow>
    sorted_wrt (\<lambda>a b. k b \<le> k a) (insert_back (\<lambda>x y. k x < k y) x ys)"
proof (induction ys)
  case Nil
  then show ?case by simp
next
  case (Cons y ys)
  show ?case
  proof (cases "k x < k y")
    case True
    with Cons show ?thesis by (auto simp: set_insert_back)
  next
    case False
    with Cons.prems show ?thesis by auto
  qed
qed

lemma sorted_foldl_insert_back:
  fixes k :: "'a \<Rightarrow> 'b::linorder"
  shows "sorted_wrt (\<lambda>a b. k b \<le> k a) a \<Longrightarrow>
    sorted_wrt (\<lambda>a b. k b \<le> k a) (foldl (\<lambda>sorted x. insert_back (\<lambda>x y. k x < k y) x sorted) a xs)"
  by (induction xs arbitrary: a) (simp_all add: sorted_insert_back)

lemma sorted_sort_Slice:
  fixes k :: "'a \<Rightarrow> 'b::linorder"
  shows "sorted_wrt (\<lambda>a b. k a \<le> k b) (sort_Slice (\<lambda>x y. k x < k y) xs)"
  using sorted_foldl_insert_back [of k "[]" xs]
  by (simp add: sort_Slice_def sorted_wrt_rev)

lemma less_repoMatch_eq: "less_repoMatch = (\<lambda>x y. sort_key_of x < sort_key_of y)"
  by (intro ext) (rule less_repoMatch_key)

lemma sorted_accumulate: "sorted_wrt (\<lambda>a b. sort_key_of a \<le> sort_key_of b) (accumulate bs)"
  by (simp add: accumulate_concat less_repoMatch_eq sorted_sort_Slice)






lemma sort_law_index:
  assumes "i < length (accumulate bs)" "j < length (accumulate bs)"
    and "less_repoMatch (accumulate bs ! i) (accumulate bs ! j)"
  shows "i < j"
proof (rule ccontr)
  assume "\<not> i < j"
  then consider "j = i" | "j < i" by linarith
  then show False
  proof cases
    case 1
    with assms(3) show False by (simp add: less_repoMatch_key)
  next
    case 2
    from sorted_wrt_nth_less [OF sorted_accumulate 2 assms(1)]
    have "sort_key_of (accumulate bs ! j) \<le> sort_key_of (accumulate bs ! i)" .
    with assms(3) show False by (simp add: less_repoMatch_key)
  qed
qed




text \<open>
  What the closure compares after the match count is the field \<open>Path\<close> of the URI parsed
  from \<open>repo?commit#path\<close> (line 154). When the parser splits that string as the example
  parser does, the field holds the repository name and the file path is in \<open>Fragment\<close>:
  two files of one repository with the same number of matches are then left as they came
  in, here \<open>y.go\<close> before \<open>x.go\<close>, although the comment on \<open>accumulate\<close> announces a
  sort by file.
\<close>

lemma accumulate_sorted_by_Path:
  assumes "i < length (accumulate bs)" and "j < length (accumulate bs)"
    and "length (lineMatches (accumulate bs ! i)) = length (lineMatches (accumulate bs ! j))"
    and "Path (uri (accumulate bs ! i)) < Path (uri (accumulate bs ! j))"
  shows "i < j"
proof -
  from assms(3,4) have "less_repoMatch (accumulate bs ! i) (accumulate bs ! j)"
    by (auto simp: less_repoMatch_def strings_Compare_def)
  with assms(1,2) show ?thesis by (rule sort_law_index)
qed

lemma accumulate_files_of_one_repository:
  "accumulate [[match_y, match_x]] = [match_y, match_x] \<and>
   length (lineMatches match_y) = length (lineMatches match_x) \<and>
   Path (uri match_y) = Path (uri match_x) \<and>
   Fragment (uri match_x) < Fragment (uri match_y)"
  by code_simp

text \<open>
  Entries with the same file path and the same number of matches come out of two searches
  of the example collaborators: the file \<open>README.md\<close> of two repositories. Both are in
  the result, one before the other, for either order of arrival.
\<close>

lemma accumulate_same_file_of_two_repositories:
  "fst (searchRepo (example_backend []) repo_a example_pattern) = Return ([match_c0], None) \<and>
   fst (searchRepo (example_backend []) repo_b example_pattern) = Return ([match_readme_b], None) \<and>
   accumulate [[match_c0], [match_readme_b]] = [match_c0, match_readme_b] \<and>
   accumulate [[match_readme_b], [match_c0]] = [match_c0, match_readme_b] \<and>
   length (lineMatches match_c0) = length (lineMatches match_readme_b) \<and>
   Fragment (uri match_c0) = Fragment (uri match_readme_b)"
  by code_simp

text \<open>
  C2, as stated: of two entries with the same number of line matches, one precedes the
  other if and only if its path is the smaller one. The entries for one file at two
  snapshots, with one match each, are both in the result, one before the other, and
  neither path is smaller: they agree in \<open>Path\<close> and in the file path.
\<close>

theorem accumulate_iff_counterexample:
  "accumulate [[match_c0], [match_c1]] = [match_c0, match_c1] \<and>
   match_c0 \<noteq> match_c1 \<and>
   length (lineMatches match_c0) = length (lineMatches match_c1) \<and>
   \<not> Path (uri match_c0) < Path (uri match_c1) \<and>
   \<not> Fragment (uri match_c0) < Fragment (uri match_c1)"
  by code_simp

text \<open>
  C2, amended: in every sequence the aggregator produces, an entry with strictly fewer
  line matches than another comes before it, and an entry that comes before another has
  at most as many line matches. (Of the order among entries with the same number of line
  matches nothing is stated.)
\<close>

theorem accumulate_count_law:
  assumes "i < length (accumulate bs)" and "j < length (accumulate bs)"
    and "a = accumulate bs ! i" and "b = accumulate bs ! j"
  shows "(length (lineMatches a) < length (lineMatches b) \<longrightarrow> i < j) \<and>
    (i < j \<longrightarrow> length (lineMatches a) \<le> length (lineMatches b))"
proof (intro conjI impI)
  assume "length (lineMatches a) < length (lineMatches b)"
  then have "less_repoMatch a b" by (simp add: less_repoMatch_def)
  with assms show "i < j" using sort_law_index by blast
next
  assume "i < j"
  from sorted_wrt_nth_less [OF sorted_accumulate this assms(2)] assms(3,4)
  have "sort_key_of a \<le> sort_key_of b" by simp
  then show "length (lineMatches a) \<le> length (lineMatches b)"
    by (auto simp: sort_key_of_def less_eq_prod_def)
qed

theorem accumulate_count_law_witness:
  "accumulate [[match_y, match_x], [match_z]] ! 0 = match_z \<and>
   accumulate [[match_y, match_x], [match_z]] ! 1 = match_y \<and>
   length (lineMatches match_z) < length (lineMatches match_y) \<and> (0::nat) < 1"
proof -
  have e: "accumulate [[match_y, match_x], [match_z]] = [match_z, match_y, match_x]"
    by code_simp
  have l: "length (lineMatches match_z) < length (lineMatches match_y)"
    by (simp add: match_z_def match_y_def)
  from accumulate_count_law [of 0 "[[match_y, match_x], [match_z]]" 1 match_z match_y] e l
  show ?thesis by simp
qed




section \<open>The steps of the goroutines, case by case\<close>

lemma worker_step_cases [consumes 1, case_names take closed check panic fail ok send_closed send]:
  assumes "worker_step w info i s = Some s'"
  obtains
    (take) r rs where "i < length (workers s)" "workers s ! i = W_range" "main s = M_feed (r # rs)"
      "s' = set_worker i (W_check r) (s\<lparr>main := M_feed rs\<rparr>)"
  | (closed) "i < length (workers s)" "workers s ! i = W_range" "\<forall>r rs. main s \<noteq> M_feed (r # rs)"
      "repositories_closed s" "s' = set_worker i W_exit s"
  | (check) r c where "i < length (workers s)" "workers s ! i = W_check r" "ctx_err s = Some c"
      "s' = set_worker i (W_search r) s"
  | (panic) r cs where "i < length (workers s)" "workers s ! i = W_search r"
      "searchRepo w r info = (Panic, cs)"
      "s' = s\<lparr>calls := calls s @ SearchStarted r # cs, crashed := True\<rparr>"
  | (fail) r rm err cs where "i < length (workers s)" "workers s ! i = W_search r"
      "searchRepo w r info = (Return (rm, Some err), cs)"
      "s' = set_worker i W_exit (cancel (s\<lparr>calls := calls s @ SearchStarted r # cs\<rparr>))"
  | (ok) r rm cs where "i < length (workers s)" "workers s ! i = W_search r"
      "searchRepo w r info = (Return (rm, None), cs)"
      "s' = set_worker i (W_send rm) (s\<lparr>calls := calls s @ SearchStarted r # cs\<rparr>)"
  | (send_closed) rm where "i < length (workers s)" "workers s ! i = W_send rm"
      "responses_closed s" "s' = s\<lparr>crashed := True\<rparr>"
  | (send) rm fl where "i < length (workers s)" "workers s ! i = W_send rm"
      "\<not> responses_closed s" "acc s = A_recv fl"
      "s' = set_worker i W_range (s\<lparr>acc := A_recv (fl @ rm)\<rparr>)"
proof -
  from assms have i: "i < length (workers s)"
    by (simp add: worker_step_def split: if_splits)
  show ?thesis
  proof (cases "workers s ! i")
    case W_range
    with assms i show ?thesis
      by (auto simp: worker_step_def split: main_pc.splits list.splits if_splits intro: take closed)
  next
    case (W_check r)
    with assms i show ?thesis
      by (auto simp: worker_step_def recv_Done_def split: option.splits intro: check)
  next
    case (W_search r)
    with assms i show ?thesis
      by (auto simp: worker_step_def split: prod.splits go.splits option.splits intro: panic fail ok)
  next
    case (W_send rm)
    with assms i show ?thesis
      by (auto simp: worker_step_def split: if_splits acc_pc.splits intro: send_closed send)
  next
    case W_exit
    with assms i show ?thesis by (simp add: worker_step_def)
  qed
qed

lemma main_step_cases [consumes 1, case_names close_repos wait close_resp err no_err result]:
  assumes "main_step s = Some s'"
  obtains
    (close_repos) "main s = M_feed []" "s' = s\<lparr>repositories_closed := True, main := M_wait\<rparr>"
  | (wait) "main s = M_wait" "\<forall>i < length (workers s). workers s ! i = W_exit"
      "s' = s\<lparr>main := M_close\<rparr>"
  | (close_resp) "main s = M_close" "s' = s\<lparr>responses_closed := True, main := M_err\<rparr>"
  | (err) e where "main s = M_err" "ctx_err s = Some e"
      "s' = s\<lparr>main := M_returned ([], Some (ContextError e))\<rparr>"
  | (no_err) "main s = M_err" "ctx_err s = None"
      "s' = s\<lparr>ctx_err := Some Canceled, main := M_result\<rparr>"
  | (result) fl where "main s = M_result" "acc s = A_send fl"
      "s' = s\<lparr>main := M_returned (fl, None), acc := A_exit\<rparr>"
  using assms
  by (auto simp: main_step_def cancel_def list_all_length
      split: main_pc.splits list.splits if_splits option.splits acc_pc.splits)

lemma acc_step_cases [consumes 1, case_names sort]:
  assumes "acc_step s = Some s'"
  obtains (sort) fl where "acc s = A_recv fl" "responses_closed s"
    "s' = s\<lparr>acc := A_send (sort_Slice less_repoMatch fl)\<rparr>"
  using assms by (auto simp: acc_step_def split: acc_pc.splits if_splits)

lemma step_cases [consumes 1, case_names Main Worker Accumulate ParentDone]:
  assumes "step w info e s = Some s'"
  obtains
    (Main) "e = Main" "\<not> crashed s" "main_step s = Some s'"
  | (Worker) i where "e = Worker i" "\<not> crashed s" "worker_step w info i s = Some s'"
  | (Accumulate) "e = Accumulate" "\<not> crashed s" "acc_step s = Some s'"
  | (ParentDone) c where "e = ParentDone c" "\<not> crashed s" "ctx_err s = None"
      "s' = s\<lparr>ctx_err := Some c\<rparr>"
  using assms
  by (cases e) (auto simp: step_def split: if_splits option.splits)

section \<open>What holds in every reachable state\<close>

text \<open>
  No search starts before the context has ended; a batch is on its way only after a
  search; past \<open>wg.Wait()\<close> every worker has returned; and the caller returns either
  the empty sequence without an error, or no sequence with the error of the context.
\<close>

lemma sort_Slice_Nil: "sort_Slice lt [] = []"
  by (simp add: sort_Slice_def)

lemmas pc_defs = after_wait_def after_close_def feeding_def searching_def sending_def

lemma in_set_update: "pc \<in> set (xs[i := x]) \<Longrightarrow> pc = x \<or> pc \<in> set xs"
  using set_update_subset_insert [of xs i x] by auto

lemma wf_init: "wf_state (init repos)"
  by (simp add: wf_state_def ctx_inv_def calls_inv_def wait_inv_def chan_inv_def ret_inv_def
      init_def pc_defs)

lemma ctx_done_if_searching:
  assumes "ctx_inv s" and "i < length (workers s)" and "searching (workers s ! i)"
  shows "\<exists>c. ctx_err s = Some c"
proof -
  from assms(2) have "workers s ! i \<in> set (workers s)" by (rule nth_mem)
  with assms(1,3) show ?thesis by (auto simp: ctx_inv_def)
qed

lemma ctx_inv_step:
  assumes "step w info e s = Some s'" and "ctx_inv s"
  shows "ctx_inv s'"
  using assms(1)
proof (cases rule: step_cases)
  case Main
  from this(3) assms(2) show ?thesis
    by (cases rule: main_step_cases) (auto simp: ctx_inv_def)
next
  case (Worker i)
  from this(3) show ?thesis
  proof (cases rule: worker_step_cases)
    case (take r rs)
    with assms(2) show ?thesis
      by (auto simp: ctx_inv_def set_worker_def searching_def dest!: in_set_update)
  next
    case closed
    with assms(2) show ?thesis
      by (auto simp: ctx_inv_def set_worker_def searching_def dest!: in_set_update)
  next
    case (check r c)
    then show ?thesis by (simp add: ctx_inv_def set_worker_def)
  next
    case (panic r cs)
    with ctx_done_if_searching [OF assms(2), of i] show ?thesis
      by (auto simp: ctx_inv_def searching_def)
  next
    case (fail r rm err cs)
    with ctx_done_if_searching [OF assms(2), of i] show ?thesis
      by (auto simp: ctx_inv_def searching_def set_worker_def cancel_def)
  next
    case (ok r rm cs)
    with ctx_done_if_searching [OF assms(2), of i] show ?thesis
      by (auto simp: ctx_inv_def searching_def set_worker_def)
  next
    case (send_closed rm)
    with ctx_done_if_searching [OF assms(2), of i] show ?thesis
      by (auto simp: ctx_inv_def searching_def)
  next
    case (send rm fl)
    with ctx_done_if_searching [OF assms(2), of i] show ?thesis
      by (auto simp: ctx_inv_def searching_def set_worker_def)
  qed
next
  case Accumulate
  from this(3) assms(2) show ?thesis
    by (cases rule: acc_step_cases) (auto simp: ctx_inv_def)
next
  case (ParentDone c)
  then show ?thesis by (simp add: ctx_inv_def)
qed

lemma calls_inv_step:
  assumes "step w info e s = Some s'" and "calls_inv s"
  shows "calls_inv s'"
  using assms(1)
proof (cases rule: step_cases)
  case Main
  from this(3) assms(2) show ?thesis
    by (cases rule: main_step_cases) (auto simp: calls_inv_def)
next
  case (Worker i)
  from this(3) show ?thesis
  proof (cases rule: worker_step_cases)
    case (take r rs)
    with assms(2) show ?thesis
      by (auto simp: calls_inv_def set_worker_def sending_def dest!: in_set_update)
  next
    case closed
    with assms(2) show ?thesis
      by (auto simp: calls_inv_def set_worker_def sending_def dest!: in_set_update)
  next
    case (check r c)
    with assms(2) show ?thesis
      by (auto simp: calls_inv_def set_worker_def sending_def dest!: in_set_update)
  next
    case (panic r cs)
    then show ?thesis by (simp add: calls_inv_def)
  next
    case (fail r rm err cs)
    then show ?thesis by (simp add: calls_inv_def set_worker_def cancel_def split: option.splits)
  next
    case (ok r rm cs)
    then show ?thesis by (simp add: calls_inv_def set_worker_def)
  next
    case (send_closed rm)
    from send_closed(1,2) have "W_send rm \<in> set (workers s)" by (metis nth_mem)
    with assms(2) have "calls s \<noteq> []" by (auto simp: calls_inv_def sending_def)
    with send_closed show ?thesis by (simp add: calls_inv_def)
  next
    case (send rm fl)
    from send(1,2) have "W_send rm \<in> set (workers s)" by (metis nth_mem)
    with assms(2) have "calls s \<noteq> []" by (auto simp: calls_inv_def sending_def)
    with send show ?thesis by (simp add: calls_inv_def set_worker_def)
  qed
next
  case Accumulate
  from this(3) assms(2) show ?thesis
    by (cases rule: acc_step_cases) (auto simp: calls_inv_def sort_Slice_Nil)
next
  case (ParentDone c)
  with assms(2) show ?thesis by (simp add: calls_inv_def)
qed

lemma worker_step_not_exited:
  assumes "worker_step w info i s = Some s'"
  shows "\<exists>pc \<in> set (workers s). pc \<noteq> W_exit"
proof -
  from assms have "i < length (workers s)" and "workers s ! i \<noteq> W_exit"
    by (auto simp: worker_step_def split: if_splits)
  then show ?thesis by (metis nth_mem)
qed

lemma worker_step_main:
  assumes "worker_step w info i s = Some s'"
  shows "after_wait (main s') = after_wait (main s) \<and> after_close (main s') = after_close (main s)
    \<and> feeding (main s') = feeding (main s)
    \<and> (\<not> feeding (main s) \<longrightarrow> main s' = main s)
    \<and> responses_closed s' = responses_closed s \<and> repositories_closed s' = repositories_closed s
    \<and> length (workers s') = length (workers s)"
  using assms
  by (cases rule: worker_step_cases)
    (simp_all add: set_worker_def cancel_def pc_defs split: option.splits)

lemma wait_inv_step:
  assumes "step w info e s = Some s'" and "wait_inv s"
  shows "wait_inv s'"
  using assms(1)
proof (cases rule: step_cases)
  case Main
  from this(3) assms(2) show ?thesis
    by (cases rule: main_step_cases) (auto simp: wait_inv_def after_wait_def in_set_conv_nth)
next
  case (Worker i)
  from worker_step_not_exited [OF this(3)] worker_step_main [OF this(3)] assms(2)
  show ?thesis by (auto simp: wait_inv_def)
next
  case Accumulate
  from this(3) assms(2) show ?thesis
    by (cases rule: acc_step_cases) (auto simp: wait_inv_def)
next
  case (ParentDone c)
  with assms(2) show ?thesis by (simp add: wait_inv_def)
qed

lemma chan_inv_step:
  assumes "step w info e s = Some s'" and "chan_inv s"
  shows "chan_inv s'"
  using assms(1)
proof (cases rule: step_cases)
  case Main
  from this(3) assms(2) show ?thesis
    by (cases rule: main_step_cases) (auto simp: chan_inv_def after_close_def feeding_def)
next
  case (Worker i)
  from this(3) show ?thesis
  proof (cases rule: worker_step_cases)
    case (take r rs)
    with assms(2) show ?thesis by (simp add: chan_inv_def set_worker_def pc_defs)
  next
    case closed
    with assms(2) show ?thesis by (simp add: chan_inv_def set_worker_def)
  next
    case (check r c)
    with assms(2) show ?thesis by (simp add: chan_inv_def set_worker_def)
  next
    case (panic r cs)
    with assms(2) show ?thesis by (simp add: chan_inv_def)
  next
    case (fail r rm err cs)
    with assms(2) show ?thesis
      by (simp add: chan_inv_def set_worker_def cancel_def split: option.splits)
  next
    case (ok r rm cs)
    with assms(2) show ?thesis by (simp add: chan_inv_def set_worker_def)
  next
    case (send_closed rm)
    with assms(2) show ?thesis by (simp add: chan_inv_def)
  next
    case (send rm fl)
    with assms(2) show ?thesis by (auto simp add: chan_inv_def set_worker_def)
  qed
next
  case Accumulate
  from this(3) assms(2) show ?thesis
    by (cases rule: acc_step_cases) (auto simp: chan_inv_def)
next
  case (ParentDone c)
  with assms(2) show ?thesis by (simp add: chan_inv_def)
qed

lemma ret_inv_step:
  assumes "step w info e s = Some s'" and "ret_inv s" and "ctx_inv s" and "calls_inv s"
    and "wait_inv s"
  shows "ret_inv s'"
  using assms(1)
proof (cases rule: step_cases)
  case Main
  from this(3) show ?thesis
  proof (cases rule: main_step_cases)
    case close_repos
    with assms(2) show ?thesis by (simp add: ret_inv_def)
  next
    case wait
    with assms(2) show ?thesis by (simp add: ret_inv_def)
  next
    case close_resp
    with assms(2) show ?thesis by (simp add: ret_inv_def)
  next
    case (err e)
    with assms(2) show ?thesis by (simp add: ret_inv_def)
  next
    case no_err
    with assms(2,3) show ?thesis by (simp add: ret_inv_def ctx_inv_def)
  next
    case (result fl)
    with assms(2,4) show ?thesis by (auto simp add: ret_inv_def calls_inv_def)
  qed
next
  case (Worker i)
  from worker_step_not_exited [OF this(3)] assms(5) have "\<not> after_wait (main s)"
    by (auto simp: wait_inv_def)
  moreover from this worker_step_main [OF Worker(3)] have "\<not> after_wait (main s')"
    by simp
  ultimately show ?thesis by (auto simp: ret_inv_def after_wait_def)
next
  case Accumulate
  from this(3) assms(2) show ?thesis
    by (cases rule: acc_step_cases) (auto simp: ret_inv_def)
next
  case (ParentDone c)
  with assms(2) show ?thesis by (auto simp add: ret_inv_def)
qed

lemma wf_step: "step w info e s = Some s' \<Longrightarrow> wf_state s \<Longrightarrow> wf_state s'"
  unfolding wf_state_def
  by (blast intro: ctx_inv_step calls_inv_step wait_inv_step chan_inv_step ret_inv_step)

lemma wf_run: "run w info sched s = Some s' \<Longrightarrow> wf_state s \<Longrightarrow> wf_state s'"
proof (induction sched arbitrary: s)
  case Nil
  then show ?case by simp
next
  case (Cons e es)
  then show ?case by (auto split: option.splits dest: wf_step)
qed

lemma wf_reach: "run w info sched (init repos) = Some s \<Longrightarrow> wf_state s"
  using wf_run wf_init by blast

lemma returned_cases:
  assumes "wf_state s" and "main s = M_returned out"
  shows "out = ([], None) \<and> calls s = [] \<or> (\<exists>c. ctx_err s = Some c \<and> out = ([], Some (ContextError c)))"
proof (cases out)
  case (Pair fl e)
  with assms show ?thesis
    by (cases e) (auto simp: wf_state_def ret_inv_def)
qed

lemma started_ctx_done:
  assumes "wf_state s" and "calls s \<noteq> []"
  shows "\<exists>c. ctx_err s = Some c"
  using assms by (auto simp: wf_state_def ctx_inv_def)

lemma SearchRepos_returns_Nil:
  assumes "SearchRepos w args sched = Some (fl, e)"
  shows "fl = []"
proof -
  from assms obtain s where s: "run w (Info args) sched (init (Repos args)) = Some s"
    and m: "main s = M_returned (fl, e)"
    by (auto simp: SearchRepos_def split: option.splits main_pc.splits)
  from returned_cases [OF wf_reach [OF s] m] show ?thesis by auto
qed

section \<open>The unconfigured backend\<close>

lemma no_request_step:
  assumes "step w info e s = Some s'" and "searcherURL w = []"
    and "\<forall>req. CallDo req \<notin> set (calls s)"
  shows "\<forall>req. CallDo req \<notin> set (calls s')"
proof -
  have sr: "\<And>r req. CallDo req \<notin> set (snd (searchRepo w r info))"
    using assms(2)
    by (auto simp: textSearch_def searchRepo_def split: prod.splits option.splits)
  from assms(1) show ?thesis
  proof (cases rule: step_cases)
    case Main
    from this(3) assms(3) show ?thesis by (cases rule: main_step_cases) simp_all
  next
    case (Worker i)
    from this(3) show ?thesis
    proof (cases rule: worker_step_cases)
      case (panic r cs)
      with sr [of _ r] assms(3) show ?thesis by auto
    next
      case (fail r rm err cs)
      with sr [of _ r] assms(3) show ?thesis
        by (auto simp: set_worker_def cancel_def split: option.splits)
    next
      case (ok r rm cs)
      with sr [of _ r] assms(3) show ?thesis by (auto simp: set_worker_def)
    qed (use assms(3) in \<open>simp_all add: set_worker_def\<close>)
  next
    case Accumulate
    from this(3) assms(3) show ?thesis by (cases rule: acc_step_cases) simp_all
  next
    case (ParentDone c)
    with assms(3) show ?thesis by simp
  qed
qed

lemma no_request_run:
  assumes "searcherURL w = []"
  shows "run w info sched s = Some s' \<Longrightarrow> \<forall>req. CallDo req \<notin> set (calls s) \<Longrightarrow>
    \<forall>req. CallDo req \<notin> set (calls s')"
proof (induction sched arbitrary: s)
  case Nil
  then show ?case by simp
next
  case (Cons e es)
  from Cons.prems(1) obtain t where t: "step w info e s = Some t" "run w info es t = Some s'"
    by (auto split: option.splits)
  from no_request_step [OF t(1) assms Cons.prems(2)] Cons.IH [OF t(2)] show ?case by blast
qed

text \<open>
  C7, as stated: with no endpoint configured, \<open>textSearch\<close> and every call that
  reaches it fail with a configuration error. \<open>SearchRepos\<close> reaches it through its
  worker: the search of the worker returns the configuration error, and the call returns
  the error of the context.
\<close>

theorem SearchRepos_hides_configuration_error:
  "searcherURL unconfigured_backend = [] \<and>
   searchRepo unconfigured_backend repo_a example_pattern
     = (Return ([], Some ConfigurationError), [CallGetByURI repo_a, CallResolveRev 1]) \<and>
   SearchRepos unconfigured_backend (example_args [repo_a]) run_one_failure
     = Some ([], Some (ContextError DeadlineExceeded))"
  by code_simp

text \<open>
  C7, amended: with an empty \<open>searcherURL\<close>, \<open>textSearch\<close> returns the configuration
  error and no matches, having made no call at all; \<open>TextSearch\<close> returns the same, and
  a \<open>searchRepo\<close> that reaches it returns that error after its two lookups. Neither
  \<open>searchRepo\<close> nor any run of \<open>SearchRepos\<close> issues a request to the backend.
  \<open>SearchRepos\<close> does not report the configuration error: an error that it returns is
  the error of the context, and comes with no result.
\<close>

theorem textSearch_unconfigured:
  assumes "searcherURL w = []"
  shows "textSearch w repo commit p = (([], Some ConfigurationError), []) \<and>
    TextSearch w r p = (([], Some ConfigurationError), []) \<and>
    (\<forall>rp c. GetByURI w repo = (Some rp, None) \<and> fst (ResolveRev w (ID rp)) = Some c \<longrightarrow>
       searchRepo w repo p =
         (Return ([], Some ConfigurationError), [CallGetByURI repo, CallResolveRev (ID rp)])) \<and>
    (\<forall>req. CallDo req \<notin> set (snd (searchRepo w repo p))) \<and>
    (\<forall>sched repos s req. run w p sched (init repos) = Some s \<longrightarrow> CallDo req \<notin> set (calls s)) \<and>
    (\<forall>args sched fl e. SearchRepos w args sched = Some (fl, Some e) \<longrightarrow>
       fl = [] \<and> e \<noteq> ConfigurationError \<and> (\<exists>c. e = ContextError c))"
proof -
  have a: "\<And>repo commit. textSearch w repo commit p = (([], Some ConfigurationError), [])"
    using assms by (simp add: textSearch_def)
  have b: "searchRepo w repo p =
      (Return ([], Some ConfigurationError), [CallGetByURI repo, CallResolveRev (ID rp)])"
    if "GetByURI w repo = (Some rp, None)" "fst (ResolveRev w (ID rp)) = Some c" for rp c
    using that a by (simp add: searchRepo_def)
  have c: "\<forall>req. CallDo req \<notin> set (snd (searchRepo w repo p))"
    using a by (auto simp: searchRepo_def split: prod.splits option.splits)
  have d: "CallDo req \<notin> set (calls s)" if "run w p sched (init repos) = Some s" for sched repos s req
    using no_request_run [OF assms that] by (simp add: init_def)
  have e: "fl = [] \<and> e \<noteq> ConfigurationError \<and> (\<exists>c. e = ContextError c)"
    if "SearchRepos w args sched = Some (fl, Some e)" for args sched fl e
  proof -
    from that obtain s where s: "run w (Info args) sched (init (Repos args)) = Some s"
      and m: "main s = M_returned (fl, Some e)"
      by (auto simp: SearchRepos_def split: option.splits main_pc.splits)
    from returned_cases [OF wf_reach [OF s] m] show ?thesis by auto
  qed
  have t: "TextSearch w r p = (([], Some ConfigurationError), [])"
    using a by (simp add: TextSearch_def)
  from a b c d e t show ?thesis by blast
qed

theorem textSearch_unconfigured_witness:
  "searcherURL unconfigured_backend = [] \<and>
   textSearch unconfigured_backend repo_a ''c0'' example_pattern
     = (([], Some ConfigurationError), []) \<and>
   TextSearch unconfigured_backend example_resolver example_pattern
     = (([], Some ConfigurationError), []) \<and>
   searchRepo unconfigured_backend repo_a example_pattern
     = (Return ([], Some ConfigurationError), [CallGetByURI repo_a, CallResolveRev 1]) \<and>
   SearchRepos unconfigured_backend (example_args [repo_a]) run_one_failure
     = Some ([], Some (ContextError DeadlineExceeded))"
proof -
  have h: "searcherURL unconfigured_backend = []"
    by (simp add: unconfigured_backend_def)
  have g: "GetByURI unconfigured_backend repo_a = (Some \<lparr>ID = 1\<rparr>, None)"
    "fst (ResolveRev unconfigured_backend (ID \<lparr>ID = 1\<rparr>)) = Some \<lparr>CommitID = ''c0''\<rparr>"
    by (simp_all add: unconfigured_backend_def example_backend_def)
  have r: "SearchRepos unconfigured_backend (example_args [repo_a]) run_one_failure
     = Some ([], Some (ContextError DeadlineExceeded))"
    by code_simp
  from textSearch_unconfigured [OF h, of repo_a "''c0''" example_pattern example_resolver] h g r
  show ?thesis by auto
qed

section \<open>The error that is returned\<close>

text \<open>
  C1, as stated: when the search of a worker fails, the error of that worker is the one
  returned. Here the only search fails in the transport, and the call returns the error
  of the context, which had passed its deadline.
\<close>

theorem SearchRepos_returns_context_error:
  "fst (searchRepo (example_backend [repo_a]) repo_a example_pattern)
     = Return ([], Some (NetworkError ''connection refused'')) \<and>
   SearchRepos (example_backend [repo_a]) (example_args [repo_a]) run_one_failure
     = Some ([], Some (ContextError DeadlineExceeded))"
  by code_simp

text \<open>
  C1, amended: when the search of a worker has failed, the context has ended; the worker
  calls \<open>cancel()\<close> and drops its error, and what \<open>SearchRepos\<close> returns, if it has
  returned, is no result and \<open>ctx.Err()\<close>, the error of the context.
\<close>

theorem SearchRepos_error_is_ctx_Err:
  assumes "run w (Info args) sched (init (Repos args)) = Some s"
    and "SearchStarted r \<in> set (calls s)"
    and "fst (searchRepo w r (Info args)) = Return (rm, Some err)"
  shows "\<exists>c. ctx_err s = Some c \<and>
    (SearchRepos w args sched = None \<or>
     SearchRepos w args sched = Some ([], Some (ContextError c)))"
proof -
  from assms(1) have wf: "wf_state s" by (rule wf_reach)
  from assms(2) have ne: "calls s \<noteq> []" by auto
  from started_ctx_done [OF wf ne] obtain c where c: "ctx_err s = Some c" ..
  show ?thesis
  proof (cases "main s")
    case (M_returned out)
    from returned_cases [OF wf M_returned] ne c have "out = ([], Some (ContextError c))"
      by auto
    with assms(1) M_returned c show ?thesis by (simp add: SearchRepos_def)
  qed (use assms(1) c in \<open>simp_all add: SearchRepos_def\<close>)
qed

theorem SearchRepos_error_is_ctx_Err_witness:
  "SearchStarted repo_a \<in> set (calls (the (run (example_backend [repo_a]) example_pattern
      run_one_failure (init [repo_a])))) \<and>
   fst (searchRepo (example_backend [repo_a]) repo_a example_pattern)
     = Return ([], Some (NetworkError ''connection refused'')) \<and>
   ctx_err (the (run (example_backend [repo_a]) example_pattern run_one_failure (init [repo_a])))
     = Some DeadlineExceeded \<and>
   SearchRepos (example_backend [repo_a]) (example_args [repo_a]) run_one_failure
     = Some ([], Some (ContextError DeadlineExceeded))"
proof -
  let ?s = "the (run (example_backend [repo_a]) example_pattern run_one_failure (init [repo_a]))"
  have h1: "run (example_backend [repo_a]) (Info (example_args [repo_a])) run_one_failure
      (init (Repos (example_args [repo_a]))) = Some ?s"
    by code_simp
  have h2: "SearchStarted repo_a \<in> set (calls ?s)" by code_simp
  have h3: "fst (searchRepo (example_backend [repo_a]) repo_a (Info (example_args [repo_a])))
     = Return ([], Some (NetworkError ''connection refused''))"
    by code_simp
  have h4: "ctx_err ?s = Some DeadlineExceeded" by code_simp
  have h5: "SearchRepos (example_backend [repo_a]) (example_args [repo_a]) run_one_failure \<noteq> None"
    by code_simp
  from SearchRepos_error_is_ctx_Err [OF h1 h2 h3] h2 h3 h4 h5 show ?thesis
    by (auto simp: example_args_def)
qed

section \<open>The receive from \<open>ctx.Done()\<close>\<close>

text \<open>
  C3 says that the check of the cancellation signal stops a worker exactly when the
  signal is set. The worker that stands at the check has already taken a name; the
  receive blocks while the context is open, and once the context has ended it yields
  \<open>ok = false\<close>, so that the worker does not return but goes on to \<open>searchRepo\<close>.
\<close>

theorem worker_check_never_stops:
  assumes "i < length (workers s)" and "workers s ! i = W_check r" and "\<not> crashed s"
  shows "step w info (Worker i) s =
    (case ctx_err s of None \<Rightarrow> None | Some c \<Rightarrow> Some (set_worker i (W_search r) s))"
  using assms by (simp add: step_def worker_step_def recv_Done_def split: option.splits)

theorem worker_check_never_stops_witness:
  "map_option (\<lambda>s. (ctx_err s, workers s ! 0, workers s ! 1, crashed s))
     (run (example_backend [repo_a]) example_pattern run_second_check (init [repo_a, repo_b]))
     = Some (Some Canceled, W_exit, W_check repo_b, False) \<and>
   map_option (\<lambda>s. workers s ! 1)
     (run (example_backend [repo_a]) example_pattern (run_second_check @ [Worker 1])
       (init [repo_a, repo_b]))
     = Some (W_search repo_b) \<and>
   map_option (\<lambda>s. SearchStarted repo_b \<in> set (calls s))
     (run (example_backend [repo_a]) example_pattern (run_second_check @ [Worker 1, Worker 1])
       (init [repo_a, repo_b]))
     = Some True"
proof -
  let ?s = "the (run (example_backend [repo_a]) example_pattern run_second_check
    (init [repo_a, repo_b]))"
  have h1: "1 < length (workers ?s)" by code_simp
  have h2: "workers ?s ! 1 = W_check repo_b" by code_simp
  have h3: "\<not> crashed ?s" by code_simp
  have h4: "ctx_err ?s = Some Canceled" by code_simp
  have a: "map_option (\<lambda>s. (ctx_err s, workers s ! 0, workers s ! 1, crashed s))
     (run (example_backend [repo_a]) example_pattern run_second_check (init [repo_a, repo_b]))
     = Some (Some Canceled, W_exit, W_check repo_b, False)"
    by code_simp
  have b: "run (example_backend [repo_a]) example_pattern (run_second_check @ [Worker 1])
       (init [repo_a, repo_b])
     = step (example_backend [repo_a]) example_pattern (Worker 1) ?s"
    by code_simp
  have c: "map_option (\<lambda>s. SearchStarted repo_b \<in> set (calls s))
     (run (example_backend [repo_a]) example_pattern (run_second_check @ [Worker 1, Worker 1])
       (init [repo_a, repo_b]))
     = Some True"
    by code_simp
  have d: "workers (set_worker 1 (W_search repo_b) ?s) ! 1 = W_search repo_b"
    using h1 by (simp add: set_worker_def)
  from worker_check_never_stops [OF h1 h2 h3, of "example_backend [repo_a]" example_pattern]
    h4 a b c d
  show ?thesis by simp
qed

lemma in_set_update_other:
  assumes "pc \<in> set xs" and "xs ! i \<noteq> pc"
  shows "pc \<in> set (xs[i := x])"
proof -
  from assms(1) obtain j where j: "j < length xs" "xs ! j = pc" by (auto simp: in_set_conv_nth)
  with assms(2) have "j \<noteq> i" by auto
  with j have "j < length (xs[i := x])" "xs[i := x] ! j = pc" by simp_all
  then show ?thesis by (metis nth_mem)
qed

lemma in_set_update_self: "i < length xs \<Longrightarrow> x \<in> set (xs[i := x])"
  by (metis length_list_update nth_list_update_eq nth_mem)

lemma blocked_inv_step:
  assumes "step w info e s = Some s'" and "blocked_inv repos s" and "wf_state s"
    and "repos \<noteq> []" and "case e of ParentDone _ \<Rightarrow> False | _ \<Rightarrow> True"
  shows "blocked_inv repos s'"
  using assms(1)
proof (cases rule: step_cases)
  case Main
  from this(3) show ?thesis
  proof (cases rule: main_step_cases)
    case close_repos
    with assms(2,4) show ?thesis by (auto simp: blocked_inv_def feeding_def)
  next
    case wait
    with assms(2) show ?thesis by (auto simp: blocked_inv_def at_check_def in_set_conv_nth)
  qed (use assms(2) in \<open>auto simp: blocked_inv_def feeding_def\<close>)
next
  case (Worker i)
  from assms(2) have c: "ctx_err s = None" by (simp add: blocked_inv_def)
  from assms(3) have ci: "ctx_inv s" by (simp add: wf_state_def)
  from Worker(3) show ?thesis
  proof (cases rule: worker_step_cases)
    case (take r rs)
    from take(1) have "W_check r \<in> set ((workers s)[i := W_check r])"
      by (rule in_set_update_self)
    then have "\<exists>pc \<in> set ((workers s)[i := W_check r]). at_check pc"
      by (rule rev_bexI) (simp add: at_check_def)
    with take assms(2) show ?thesis
      by (simp add: blocked_inv_def feeding_def set_worker_def)
  next
    case closed
    with assms(4) have "main s \<noteq> M_feed repos" by (cases repos) auto
    with assms(2) obtain pc where pc: "pc \<in> set (workers s)" "at_check pc"
      by (auto simp: blocked_inv_def)
    with closed(2) have "workers s ! i \<noteq> pc" by (auto simp: at_check_def)
    with pc(1) have "pc \<in> set ((workers s)[i := W_exit])" by (rule in_set_update_other)
    with pc(2) closed assms(2) show ?thesis
      by (auto simp: blocked_inv_def set_worker_def)
  next
    case (check r c')
    with c show ?thesis by simp
  next
    case (panic r cs)
    with ctx_done_if_searching [OF ci, of i] c show ?thesis by (simp add: searching_def)
  next
    case (fail r rm err cs)
    with ctx_done_if_searching [OF ci, of i] c show ?thesis by (simp add: searching_def)
  next
    case (ok r rm cs)
    with ctx_done_if_searching [OF ci, of i] c show ?thesis by (simp add: searching_def)
  next
    case (send_closed rm)
    with ctx_done_if_searching [OF ci, of i] c show ?thesis by (simp add: searching_def)
  next
    case (send rm fl)
    with ctx_done_if_searching [OF ci, of i] c show ?thesis by (simp add: searching_def)
  qed
next
  case Accumulate
  from this(3) assms(2) show ?thesis
    by (cases rule: acc_step_cases) (auto simp: blocked_inv_def)
next
  case (ParentDone c)
  with assms(5) show ?thesis by simp
qed

lemma blocked_inv_run:
  assumes "repos \<noteq> []"
  shows "run w info sched s = Some s' \<Longrightarrow> parent_alive sched \<Longrightarrow> blocked_inv repos s \<Longrightarrow>
    wf_state s \<Longrightarrow> blocked_inv repos s'"
proof (induction sched arbitrary: s)
  case Nil
  then show ?case by simp
next
  case (Cons e es)
  from Cons.prems(1) obtain t where t: "step w info e s = Some t" "run w info es t = Some s'"
    by (auto split: option.splits)
  from Cons.prems(2) have pe: "case e of ParentDone _ \<Rightarrow> False | _ \<Rightarrow> True" "parent_alive es"
    by (simp_all add: parent_alive_def)
  from blocked_inv_step [OF t(1) Cons.prems(3) Cons.prems(4) assms pe(1)]
  have "blocked_inv repos t" .
  moreover from wf_step [OF t(1) Cons.prems(4)] have "wf_state t" .
  ultimately show ?case using Cons.IH [OF t(2) pe(2)] by blast
qed

lemma blocked_inv_init: "blocked_inv repos (init repos)"
  by (simp add: blocked_inv_def init_def feeding_def)

text \<open>
  C4 says that every call terminates with one outcome. Given at least one name and a
  context that does not end, no interleaving lets the call return: the worker that took
  a name waits in its receive from \<open>ctx.Done()\<close>, and the caller in \<open>wg.Wait()\<close>.
\<close>

theorem SearchRepos_never_returns:
  "Repos args \<noteq> [] \<Longrightarrow> parent_alive sched \<Longrightarrow> SearchRepos w args sched = None"
proof -
  assume h: "Repos args \<noteq> []" "parent_alive sched"
  show ?thesis
  proof (cases "run w (Info args) sched (init (Repos args))")
    case None
    then show ?thesis by (simp add: SearchRepos_def)
  next
    case (Some s)
    from blocked_inv_run [OF h(1) Some h(2) blocked_inv_init wf_init]
    have "feeding (main s) \<or> main s = M_wait" by (simp add: blocked_inv_def)
    with Some show ?thesis by (auto simp: SearchRepos_def feeding_def split: main_pc.splits)
  qed
qed

theorem SearchRepos_never_returns_witness:
  "Repos (example_args [repo_a]) \<noteq> [] \<and> parent_alive run_blocked \<and>
   map_option (\<lambda>s. (main s, workers s ! 0, enabled (example_backend []) example_pattern s))
     (run (example_backend []) example_pattern run_blocked (init [repo_a]))
     = Some (M_wait, W_check repo_a, []) \<and>
   SearchRepos (example_backend []) (example_args [repo_a]) run_blocked = None"
proof -
  have h1: "Repos (example_args [repo_a]) \<noteq> []" by (simp add: example_args_def)
  have h2: "parent_alive run_blocked" by code_simp
  have h3: "map_option (\<lambda>s. (main s, workers s ! 0, enabled (example_backend []) example_pattern s))
     (run (example_backend []) example_pattern run_blocked (init [repo_a]))
     = Some (M_wait, W_check repo_a, [])"
    by code_simp
  from SearchRepos_never_returns [OF h1 h2, of "example_backend []"] h1 h2 h3
  show ?thesis by simp
qed

section \<open>Runs are finite, and where they can stop\<close>

lemma sum_list_rank_update:
  assumes "i < length xs"
  shows "sum_list (map worker_rank (xs[i := x])) + worker_rank (xs ! i) =
    sum_list (map worker_rank xs) + worker_rank x"
  using assms
proof (induction xs arbitrary: i)
  case Nil
  then show ?case by simp
next
  case (Cons y ys)
  then show ?case by (cases i) auto
qed

lemma budget_worker:
  assumes "worker_step w info i s = Some s'" and "\<not> crashed s"
  shows "budget s' < budget s"
  using assms(1)
proof (cases rule: worker_step_cases)
  case (take r rs)
  with sum_list_rank_update [OF take(1), of "W_check r"] assms(2) show ?thesis
    by (simp add: budget_def set_worker_def)
next
  case closed
  with sum_list_rank_update [OF closed(1), of W_exit] assms(2) show ?thesis
    by (simp add: budget_def set_worker_def)
next
  case (check r c)
  with sum_list_rank_update [OF check(1), of "W_search r"] assms(2) show ?thesis
    by (simp add: budget_def set_worker_def)
next
  case (panic r cs)
  with assms(2) show ?thesis by (simp add: budget_def)
next
  case (fail r rm err cs)
  with sum_list_rank_update [OF fail(1), of W_exit] assms(2) show ?thesis
    by (simp add: budget_def set_worker_def cancel_def split: option.splits)
next
  case (ok r rm cs)
  with sum_list_rank_update [OF ok(1), of "W_send rm"] assms(2) show ?thesis
    by (simp add: budget_def set_worker_def)
next
  case (send_closed rm)
  with assms(2) show ?thesis by (simp add: budget_def)
next
  case (send rm fl)
  with sum_list_rank_update [OF send(1), of W_range] assms(2) show ?thesis
    by (simp add: budget_def set_worker_def)
qed

lemma budget_step:
  assumes "step w info e s = Some s'"
  shows "budget s' < budget s"
  using assms
proof (cases rule: step_cases)
  case Main
  from this(3) this(2) show ?thesis
    by (cases rule: main_step_cases) (simp_all add: budget_def)
next
  case (Worker i)
  then show ?thesis by (simp add: budget_worker)
next
  case Accumulate
  from this(3) this(2) show ?thesis
    by (cases rule: acc_step_cases) (simp_all add: budget_def)
next
  case (ParentDone c)
  then show ?thesis by (simp add: budget_def)
qed

lemma budget_run: "run w info sched s = Some s' \<Longrightarrow> length sched + budget s' \<le> budget s"
proof (induction sched arbitrary: s)
  case Nil
  then show ?case by simp
next
  case (Cons e es)
  from Cons.prems obtain t where t: "step w info e s = Some t" "run w info es t = Some s'"
    by (auto split: option.splits)
  from budget_step [OF t(1)] Cons.IH [OF t(2)] show ?case by simp
qed

lemma budget_init: "budget (init repos) = 5 * length repos + 19"
  by (simp add: budget_def init_def nworkers_def sum_list_replicate)

lemma run_length: "run w info sched (init repos) = Some s \<Longrightarrow> length sched \<le> 5 * length repos + 19"
  using budget_run [of w info sched "init repos" s] by (simp add: budget_init)

text \<open>
  A state in which no goroutine can step is one in which the caller has returned, or a
  worker waits for the end of an open context, or the caller waits to hand a name to
  workers that have all returned.
\<close>

lemma worker_blocked:
  assumes "worker_step w info i s = None" and "i < length (workers s)"
  shows "workers s ! i = W_exit \<or>
    (at_check (workers s ! i) \<and> ctx_err s = None) \<or>
    (workers s ! i = W_range \<and> \<not> repositories_closed s \<and> main s = M_feed []) \<or>
    (workers s ! i = W_range \<and> \<not> repositories_closed s \<and> \<not> feeding (main s)) \<or>
    (sending (workers s ! i) \<and> \<not> responses_closed s \<and> (\<forall>fl. acc s \<noteq> A_recv fl))"
  using assms
  by (cases "workers s ! i")
    (auto simp: worker_step_def recv_Done_def at_check_def sending_def feeding_def
      split: main_pc.splits list.splits if_splits option.splits prod.splits go.splits acc_pc.splits)

lemma main_blocked:
  assumes "main_step s = None"
  shows "(\<exists>r rs. main s = M_feed (r # rs)) \<or>
    (main s = M_wait \<and> (\<exists>pc \<in> set (workers s). pc \<noteq> W_exit)) \<or>
    (main s = M_result \<and> (\<forall>fl. acc s \<noteq> A_send fl)) \<or>
    (\<exists>out. main s = M_returned out)"
  using assms
  by (auto simp: main_step_def list_all_iff
      split: main_pc.splits list.splits if_splits option.splits acc_pc.splits)

lemma acc_blocked:
  assumes "acc_step s = None"
  shows "(\<exists>fl. acc s = A_recv fl \<and> \<not> responses_closed s) \<or> (\<exists>fl. acc s = A_send fl) \<or> acc s = A_exit"
  using assms by (auto simp: acc_step_def split: acc_pc.splits if_splits)

lemma enabled_Nil:
  assumes "enabled w info s = []" and "\<not> crashed s" and "length (workers s) = nworkers"
  shows "main_step s = None" and "acc_step s = None"
    and "\<forall>i < length (workers s). worker_step w info i s = None"
proof -
  from assms(1) have a: "\<forall>e \<in> set goroutines. step w info e s = None"
    by (auto simp: enabled_def filter_empty_conv)
  have "Main \<in> set goroutines" "Accumulate \<in> set goroutines"
    by (simp_all add: goroutines_def)
  with a assms(2) show "main_step s = None" "acc_step s = None"
    by (auto simp: step_def)
  show "\<forall>i < length (workers s). worker_step w info i s = None"
  proof (intro allI impI)
    fix i assume "i < length (workers s)"
    with assms(3) have "Worker i \<in> set goroutines" by (simp add: goroutines_def)
    with a assms(2) show "worker_step w info i s = None" by (auto simp: step_def)
  qed
qed

lemma deadlock_cases:
  assumes "wf_state s" and "enabled w info s = []" and "\<not> crashed s"
  shows "(\<exists>out. main s = M_returned out) \<or>
    (ctx_err s = None \<and> (\<exists>pc \<in> set (workers s). at_check pc)) \<or>
    ((\<exists>r rs. main s = M_feed (r # rs)) \<and> (\<forall>pc \<in> set (workers s). pc = W_exit))"
proof -
  from assms(1) have ch: "chan_inv s" by (simp add: wf_state_def)
  then have len: "length (workers s) = nworkers" by (simp add: chan_inv_def)
  note en = enabled_Nil [OF assms(2,3) len]
  have wk: "\<forall>i < length (workers s).
     workers s ! i = W_exit \<or> (at_check (workers s ! i) \<and> ctx_err s = None)"
  proof (intro allI impI)
    fix i assume i: "i < length (workers s)"
    with en(3) have "worker_step w info i s = None" by simp
    from worker_blocked [OF this i] ch en(1)
    show "workers s ! i = W_exit \<or> (at_check (workers s ! i) \<and> ctx_err s = None)"
      by (auto simp: chan_inv_def feeding_def after_close_def main_step_def sending_def
          split: main_pc.splits)
  qed
  show ?thesis
  proof (cases "\<exists>pc \<in> set (workers s). at_check pc")
    case True
    then obtain i where "i < length (workers s)" "at_check (workers s ! i)"
      by (auto simp: in_set_conv_nth)
    with wk have "ctx_err s = None" by (auto simp: at_check_def)
    with True show ?thesis by simp
  next
    case False
    have ex: "\<forall>pc \<in> set (workers s). pc = W_exit"
    proof
      fix pc assume pc: "pc \<in> set (workers s)"
      then obtain i where "i < length (workers s)" "workers s ! i = pc"
        by (auto simp: in_set_conv_nth)
      with wk have "pc = W_exit \<or> at_check pc" by auto
      with False pc show "pc = W_exit" by auto
    qed
    from main_blocked [OF en(1)] show ?thesis
    proof (elim disjE)
      assume "\<exists>r rs. main s = M_feed (r # rs)"
      with ex show ?thesis by simp
    next
      assume "main s = M_wait \<and> (\<exists>pc \<in> set (workers s). pc \<noteq> W_exit)"
      with ex show ?thesis by auto
    next
      assume m: "main s = M_result \<and> (\<forall>fl. acc s \<noteq> A_send fl)"
      with ch acc_blocked [OF en(2)] show ?thesis
        by (auto simp: chan_inv_def after_close_def)
    next
      assume "\<exists>out. main s = M_returned out"
      then show ?thesis by simp
    qed
  qed
qed

lemma idle_inv_step:
  assumes "step w info e s = Some s'" and "idle_inv s" and "wf_state s"
    and "case e of ParentDone _ \<Rightarrow> False | _ \<Rightarrow> True"
  shows "idle_inv s'"
  using assms(1)
proof (cases rule: step_cases)
  case Main
  from this(3) show ?thesis
  proof (cases rule: main_step_cases)
    case (result fl)
    from wf_step [OF assms(1,3)] result have "fl = []"
      by (simp add: wf_state_def ret_inv_def)
    with result assms(2) show ?thesis by (simp add: idle_inv_def)
  qed (use assms(2) in \<open>auto simp: idle_inv_def\<close>)
next
  case (Worker i)
  from Worker(3) have i: "i < length (workers s)"
    by (simp add: worker_step_def split: if_splits)
  with assms(2) have pc: "workers s ! i = W_range \<or> workers s ! i = W_exit"
    by (simp add: idle_inv_def)
  from Worker(3) show ?thesis
  proof (cases rule: worker_step_cases)
    case (take r rs)
    with assms(2) show ?thesis by (simp add: idle_inv_def)
  next
    case closed
    with assms(2) show ?thesis
      by (auto simp: idle_inv_def set_worker_def dest!: in_set_update)
  qed (use pc in simp_all)
next
  case Accumulate
  from this(3) assms(2) show ?thesis
    by (cases rule: acc_step_cases) (auto simp: idle_inv_def)
next
  case (ParentDone c)
  with assms(4) show ?thesis by simp
qed

lemma idle_inv_run:
  "run w info sched s = Some s' \<Longrightarrow> parent_alive sched \<Longrightarrow> idle_inv s \<Longrightarrow>
    wf_state s \<Longrightarrow> idle_inv s'"
proof (induction sched arbitrary: s)
  case Nil
  then show ?case by simp
next
  case (Cons e es)
  from Cons.prems(1) obtain t where t: "step w info e s = Some t" "run w info es t = Some s'"
    by (auto split: option.splits)
  from Cons.prems(2) have pe: "case e of ParentDone _ \<Rightarrow> False | _ \<Rightarrow> True" "parent_alive es"
    by (simp_all add: parent_alive_def)
  from idle_inv_step [OF t(1) Cons.prems(3) Cons.prems(4) pe(1)] have "idle_inv t" .
  moreover from wf_step [OF t(1) Cons.prems(4)] have "wf_state t" .
  ultimately show ?case using Cons.IH [OF t(2) pe(2)] by blast
qed

lemma idle_inv_init: "idle_inv (init [])"
  by (simp add: idle_inv_def init_def)

text \<open>
  C9, as stated: with no repository names the call returns the empty sequence and no
  error. When the context of the caller has been cancelled, the call returns the error
  of the context.
\<close>

theorem SearchRepos_empty_cancelled:
  "SearchRepos (example_backend []) (example_args []) run_empty_cancelled
    = Some ([], Some (ContextError Canceled))"
  by code_simp

text \<open>
  C9, amended: with no repository names and a caller's context that does not end, every
  run ends within 19 steps, where it can go no further the call has returned the empty
  sequence and no error, and it never returns anything else.
\<close>

theorem SearchRepos_empty:
  assumes "Repos args = []" and "parent_alive sched"
    and "run w (Info args) sched (init (Repos args)) = Some s"
  shows "length sched \<le> 19 \<and>
    (enabled w (Info args) s = [] \<longrightarrow> SearchRepos w args sched = Some ([], None)) \<and>
    (SearchRepos w args sched = None \<or> SearchRepos w args sched = Some ([], None))"
proof -
  from assms(3) have wf: "wf_state s" by (rule wf_reach)
  from assms have idle: "idle_inv s"
    using idle_inv_run [OF _ assms(2) idle_inv_init wf_init] by simp
  from run_length [OF assms(3)] assms(1) have len: "length sched \<le> 19" by simp
  have ret: "\<And>out. main s = M_returned out \<Longrightarrow> out = ([], None)"
    using idle by (simp add: idle_inv_def)
  have a: "SearchRepos w args sched = None \<or> SearchRepos w args sched = Some ([], None)"
    using assms(3) ret by (auto simp: SearchRepos_def split: main_pc.splits)
  have b: "SearchRepos w args sched = Some ([], None)" if "enabled w (Info args) s = []"
  proof -
    from idle have nc: "\<not> crashed s" by (simp add: idle_inv_def)
    from deadlock_cases [OF wf that nc] idle obtain out where "main s = M_returned out"
      by (auto simp: idle_inv_def at_check_def)
    with assms(3) have "SearchRepos w args sched = Some out" by (simp add: SearchRepos_def)
    with a show ?thesis by simp
  qed
  from len a b show ?thesis by blast
qed

theorem SearchRepos_empty_witness:
  "Repos (example_args []) = [] \<and> parent_alive run_empty \<and>
   run (example_backend []) example_pattern run_empty (init []) \<noteq> None \<and>
   length run_empty = 16 \<and>
   enabled (example_backend []) example_pattern
     (the (run (example_backend []) example_pattern run_empty (init []))) = [] \<and>
   SearchRepos (example_backend []) (example_args []) run_empty = Some ([], None)"
proof -
  have h1: "Repos (example_args []) = []" by (simp add: example_args_def)
  have h2: "parent_alive run_empty" by code_simp
  have h3: "run (example_backend []) (Info (example_args [])) run_empty (init (Repos (example_args [])))
    = Some (the (run (example_backend []) example_pattern run_empty (init [])))"
    by code_simp
  have h4: "enabled (example_backend []) (Info (example_args []))
     (the (run (example_backend []) example_pattern run_empty (init []))) = []"
    by code_simp
  have h5: "length run_empty = 16" by code_simp
  have h6: "run (example_backend []) example_pattern run_empty (init []) \<noteq> None" by code_simp
  from SearchRepos_empty [OF h1 h2 h3] h1 h2 h4 h5 h6 show ?thesis
    by (simp add: example_args_def)
qed

section \<open>Workers that return while names are left\<close>

lemma count_update_same:
  "i < length xs \<Longrightarrow> P x = P (xs ! i) \<Longrightarrow> length (filter P (xs[i := x])) = length (filter P xs)"
proof (induction xs arbitrary: i)
  case Nil
  then show ?case by simp
next
  case (Cons y ys)
  then show ?case by (cases i) auto
qed

lemma count_update_incr:
  "i < length xs \<Longrightarrow> P x \<Longrightarrow> \<not> P (xs ! i) \<Longrightarrow>
    length (filter P (xs[i := x])) = Suc (length (filter P xs))"
proof (induction xs arbitrary: i)
  case Nil
  then show ?case by simp
next
  case (Cons y ys)
  then show ?case by (cases i) auto
qed

lemma feed_inv_not_drained:
  assumes "feed_inv repos s" and "length (workers s) < length repos"
  shows "\<exists>r rs. main s = M_feed (r # rs)"
proof -
  from assms(1) obtain rs where rs: "main s = M_feed rs"
    "length rs + length (filter busy (workers s)) = length repos"
    by (auto simp: feed_inv_def)
  have "length (filter busy (workers s)) \<le> length (workers s)" by (rule length_filter_le)
  with rs(2) assms(2) have "0 < length rs" by linarith
  then have "rs \<noteq> []" by simp
  with rs(1) show ?thesis by (cases rs) auto
qed

lemma feed_inv_step:
  assumes "step w info e s = Some s'" and "feed_inv repos s"
    and "length (workers s) < length repos"
    and "\<forall>r \<in> set repos. search_fails w info r"
  shows "feed_inv repos s'"
  using assms(1)
proof (cases rule: step_cases)
  case Main
  from feed_inv_not_drained [OF assms(2,3)] Main(3) show ?thesis
    by (auto simp: main_step_def)
next
  case (Worker i)
  from Worker(3) have i: "i < length (workers s)"
    by (simp add: worker_step_def split: if_splits)
  from i assms(2) have hr: "holds_repo repos (workers s ! i)"
    by (simp add: feed_inv_def)
  from assms(2) obtain rs0 where rs0: "main s = M_feed rs0" "set rs0 \<subseteq> set repos"
    "length rs0 + length (filter busy (workers s)) = length repos"
    by (auto simp: feed_inv_def)
  from assms(2) have all: "\<forall>pc \<in> set (workers s). holds_repo repos pc"
    by (simp add: feed_inv_def)
  have upd: "\<forall>pc \<in> set ((workers s)[i := x]). holds_repo repos pc" if "holds_repo repos x" for x
    using all that by (auto dest!: in_set_update)
  from Worker(3) show ?thesis
  proof (cases rule: worker_step_cases)
    case (take r rs)
    with rs0 have r: "r \<in> set repos" "set rs \<subseteq> set repos" "rs0 = r # rs" by auto
    from take(2) have "length (filter busy ((workers s)[i := W_check r])) = Suc (length (filter busy (workers s)))"
      by (intro count_update_incr [OF i]) (simp_all add: busy_def)
    with rs0(3) r(3) have "length rs + length (filter busy ((workers s)[i := W_check r])) = length repos"
      by simp
    with take(4) r(2) upd [of "W_check r"] r(1) show ?thesis
      by (simp add: feed_inv_def set_worker_def holds_repo_def)
  next
    case closed
    with feed_inv_not_drained [OF assms(2,3)] show ?thesis by auto
  next
    case (check r c)
    from check(2) have "length (filter busy ((workers s)[i := W_search r])) = length (filter busy (workers s))"
      by (intro count_update_same [OF i]) (simp add: busy_def)
    with check rs0 upd [of "W_search r"] hr show ?thesis
      by (simp add: feed_inv_def set_worker_def holds_repo_def)
  next
    case (panic r cs)
    with hr assms(4) have "search_fails w info r" by (simp add: holds_repo_def)
    with panic(3) show ?thesis by (simp add: search_fails_def)
  next
    case (fail r rm err cs)
    from fail(2) have "length (filter busy ((workers s)[i := W_exit])) = length (filter busy (workers s))"
      by (intro count_update_same [OF i]) (simp add: busy_def)
    with fail rs0 upd [of W_exit] show ?thesis
      by (simp add: feed_inv_def set_worker_def holds_repo_def cancel_def split: option.splits)
  next
    case (ok r rm cs)
    with hr assms(4) have "search_fails w info r" by (simp add: holds_repo_def)
    with ok(3) show ?thesis by (simp add: search_fails_def)
  next
    case (send_closed rm)
    with hr show ?thesis by (simp add: holds_repo_def)
  next
    case (send rm fl)
    with hr show ?thesis by (simp add: holds_repo_def)
  qed
next
  case Accumulate
  from this(3) assms(2) show ?thesis
    by (cases rule: acc_step_cases) (auto simp: feed_inv_def)
next
  case (ParentDone c)
  with assms(2) show ?thesis by (simp add: feed_inv_def)
qed

lemma length_workers_step:
  assumes "step w info e s = Some s'"
  shows "length (workers s') = length (workers s)"
  using assms
proof (cases rule: step_cases)
  case Main
  from this(3) show ?thesis by (cases rule: main_step_cases) simp_all
next
  case (Worker i)
  from worker_step_main [OF this(3)] show ?thesis by simp
next
  case Accumulate
  from this(3) show ?thesis by (cases rule: acc_step_cases) simp_all
next
  case (ParentDone c)
  then show ?thesis by simp
qed

lemma feed_inv_run:
  assumes "\<forall>r \<in> set repos. search_fails w info r"
  shows "run w info sched s = Some s' \<Longrightarrow> feed_inv repos s \<Longrightarrow>
    length (workers s) < length repos \<Longrightarrow> feed_inv repos s'"
proof (induction sched arbitrary: s)
  case Nil
  then show ?case by simp
next
  case (Cons e es)
  from Cons.prems(1) obtain t where t: "step w info e s = Some t" "run w info es t = Some s'"
    by (auto split: option.splits)
  from feed_inv_step [OF t(1) Cons.prems(2,3) assms] have "feed_inv repos t" .
  moreover from length_workers_step [OF t(1)] Cons.prems(3)
  have "length (workers t) < length repos" by simp
  ultimately show ?case using Cons.IH [OF t(2)] by blast
qed

lemma feed_inv_init: "feed_inv repos (init repos)"
  by (simp add: feed_inv_def init_def busy_def holds_repo_def)

text \<open>
  C6 says that a call in which a search fails returns an error. A worker whose search
  fails returns without reading on from \<open>repositories\<close>; with more names than workers
  and every search failing, the caller stays blocked in its send, in every interleaving,
  and the call returns nothing.
\<close>

theorem SearchRepos_all_fail_never_returns:
  assumes "list_all (search_fails w (Info args)) (Repos args)"
    and "nworkers < length (Repos args)"
  shows "SearchRepos w args sched = None"
proof (cases "run w (Info args) sched (init (Repos args))")
  case None
  then show ?thesis by (simp add: SearchRepos_def)
next
  case (Some s)
  from assms(1) have f: "\<forall>r \<in> set (Repos args). search_fails w (Info args) r"
    by (simp add: list_all_iff)
  from assms(2) have l: "length (workers (init (Repos args))) < length (Repos args)"
    by (simp add: init_def)
  from feed_inv_run [OF f Some feed_inv_init l] obtain rs where "main s = M_feed rs"
    by (auto simp: feed_inv_def)
  with Some show ?thesis by (simp add: SearchRepos_def)
qed

theorem SearchRepos_all_fail_never_returns_witness:
  "list_all (search_fails (example_backend eleven) (Info (example_args eleven)))
     (Repos (example_args eleven)) \<and>
   nworkers < length (Repos (example_args eleven)) \<and>
   map_option (\<lambda>s. (main s, workers s, ctx_err s, enabled (example_backend eleven) example_pattern s))
     (run (example_backend eleven) example_pattern run_eleven (init eleven))
     = Some (M_feed [''k''], replicate 10 W_exit, Some Canceled, []) \<and>
   SearchRepos (example_backend eleven) (example_args eleven) run_eleven = None"
proof -
  have h1: "list_all (search_fails (example_backend eleven) (Info (example_args eleven)))
     (Repos (example_args eleven))"
    by code_simp
  have h2: "nworkers < length (Repos (example_args eleven))" by code_simp
  have h3: "map_option (\<lambda>s. (main s, workers s, ctx_err s, enabled (example_backend eleven) example_pattern s))
     (run (example_backend eleven) example_pattern run_eleven (init eleven))
     = Some (M_feed [''k''], replicate 10 W_exit, Some Canceled, [])"
    by code_simp
  from SearchRepos_all_fail_never_returns [OF h1 h2, of run_eleven] h1 h2 h3
  show ?thesis by simp
qed

end
